theory Spec2Isabelle
  imports Complex_Main
begin

section \<open>JavaScript strings\<close>

text \<open>
  A JavaScript string is a sequence of UTF-16 code units. A code unit is modelled as a
  natural number (below 65536 for a real string; no definition uses the bound), a
  string as the list of its code units. \<open>str\<close> turns an ASCII literal into such a list.
\<close>

type_synonym jschar = nat
type_synonym jsstring = "jschar list"

definition str :: "string \<Rightarrow> jsstring" where
  "str s = map of_char s"

abbreviation DQUOTE :: jschar where "DQUOTE \<equiv> 0x22"
abbreviation COMMA :: jschar where "COMMA \<equiv> 0x2C"
abbreviation LF :: jschar where "LF \<equiv> 0x0A"
abbreviation CR :: jschar where "CR \<equiv> 0x0D"

text \<open>
  The code units that \<open>String.prototype.trim\<close> strips and that \<open>\s\<close> matches in a
  regular expression: ECMAScript's WhiteSpace and LineTerminator.
\<close>

definition is_ws :: "jschar \<Rightarrow> bool" where
  "is_ws c \<longleftrightarrow>
     c = 0x20 \<or> c = 0x0A \<or> c = 0x0D \<or> c = 0x09 \<or> c = 0x0B \<or> c = 0x0C \<or> c = 0xA0 \<or>
     c = 0x1680 \<or> (0x2000 \<le> c \<and> c \<le> 0x200A) \<or> c = 0x2028 \<or> c = 0x2029 \<or>
     c = 0x202F \<or> c = 0x205F \<or> c = 0x3000 \<or> c = 0xFEFF"

definition trimStart :: "jsstring \<Rightarrow> jsstring" where
  "trimStart s = dropWhile is_ws s"

definition trimEnd :: "jsstring \<Rightarrow> jsstring" where
  "trimEnd s = rev (dropWhile is_ws (rev s))"

definition trim :: "jsstring \<Rightarrow> jsstring" where
  "trim s = trimEnd (trimStart s)"

text \<open>\<open>Array.prototype.join\<close> on an array of strings.\<close>

fun join :: "jsstring \<Rightarrow> jsstring list \<Rightarrow> jsstring" where
  "join sep [] = []"
| "join sep [x] = x"
| "join sep (x # y # ys) = x @ sep @ join sep (y # ys)"

text \<open>\<open>String.prototype.split\<close> with a one-character separator.\<close>

fun split_char :: "jschar \<Rightarrow> jsstring \<Rightarrow> jsstring list" where
  "split_char sep [] = [[]]"
| "split_char sep (c # cs) =
     (if c = sep then [] # split_char sep cs
      else (case split_char sep cs of
              [] \<Rightarrow> [[c]]
            | piece # pieces \<Rightarrow> (c # piece) # pieces))"

section \<open>The delimiter detector: \<open>detectDelimiter\<close>\<close>

text \<open>The candidates, in the order of the source: comma, semicolon, tab, pipe.\<close>

definition delimiters :: "jschar list" where
  "delimiters = [COMMA, 0x3B, 0x09, 0x7C]"

text \<open>
  \<open>(line.match(new RegExp(d, 'g')) || []).length\<close>: the pattern is the one character
  \<open>d\<close> (the pipe escaped), so this is the number of its occurrences in the line.
\<close>

definition occurrences :: "jschar \<Rightarrow> jsstring \<Rightarrow> nat" where
  "occurrences d line = length (filter (\<lambda>c. c = d) line)"

text \<open>
  The scores are JavaScript Numbers: IEEE 754 double-precision values, every operation
  rounded to the nearest double, ties to the even significand. A finite double is
  modelled as the rational number it denotes. For a positive \<open>x\<close>, \<open>binade x\<close> is the
  exponent \<open>e\<close> with \<open>2 ^ e \<le> x < 2 ^ (e + 1)\<close>, and \<open>to_double x\<close> is the multiple of
  \<open>2 ^ (e - 52)\<close> nearest to \<open>x\<close>: the double, with its significand of 53 bits, that a
  correctly rounded operation returns when its exact result is \<open>x\<close>. The range of the
  exponent is not bounded here: a double overflows above \<open>2 ^ 1024\<close> and is subnormal
  below \<open>2 ^ (- 1022)\<close> only, and the scores of counts of characters stay far inside.
  \<open>bit_length n\<close> is the number of binary digits of a positive integer.
\<close>

function bit_length :: "int \<Rightarrow> nat" where
  "bit_length n = (if n \<le> 0 then 0 else Suc (bit_length (n div 2)))"
  by pat_completeness auto
termination
  by (relation "measure nat") auto

declare bit_length.simps [simp del]

definition pow2 :: "int \<Rightarrow> rat" where
  "pow2 k = (if k \<ge> 0 then 2 ^ nat k else 1 / 2 ^ nat (- k))"

definition binade :: "rat \<Rightarrow> int" where
  "binade x = (if x \<ge> 1 then int (bit_length \<lfloor>x\<rfloor>) - 1
               else - int (bit_length (\<lceil>1 / x\<rceil> - 1)))"

definition round_half_even :: "rat \<Rightarrow> int" where
  "round_half_even q =
     (let f = \<lfloor>q\<rfloor>; r = q - of_int f
      in if r < 1 / 2 then f else if r > 1 / 2 then f + 1 else if even f then f else f + 1)"

definition to_double :: "rat \<Rightarrow> rat" where
  "to_double x =
     (if x = 0 then 0
      else (let e = binade \<bar>x\<bar> - 52; m = round_half_even (\<bar>x\<bar> / pow2 e)
            in sgn x * of_int m * pow2 e))"

text \<open>
  The operators \<open>+\<close>, \<open>-\<close> and \<open>/\<close> on Numbers, which the language defines as the
  correctly rounded exact results, and \<open>Math.pow(x, 2)\<close>. The language leaves the
  accuracy of \<open>Math.pow\<close> to the implementation; it is taken to return the correctly
  rounded square, the product \<open>x * x\<close>.
\<close>

definition js_add :: "rat \<Rightarrow> rat \<Rightarrow> rat" where
  "js_add a b = to_double (a + b)"

definition js_sub :: "rat \<Rightarrow> rat \<Rightarrow> rat" where
  "js_sub a b = to_double (a - b)"

definition js_div :: "rat \<Rightarrow> rat \<Rightarrow> rat" where
  "js_div a b = to_double (a / b)"

definition Math_pow_2 :: "rat \<Rightarrow> rat" where
  "Math_pow_2 x = to_double (x * x)"

text \<open>
  The score of one candidate, the body of the second \<open>forEach\<close>: the two \<open>reduce\<close>
  calls with their callbacks, the two divisions by \<open>counts[d].length\<close> and the test
  \<open>avg > 0\<close>. A count is the length of an array of matches, an integer that a double
  holds exactly.
\<close>

definition score :: "jsstring list \<Rightarrow> jschar \<Rightarrow> rat" where
  "score lines d =
     (let counts = map (occurrences d) lines;
          avg = js_div (foldl (\<lambda>a b. js_add a (rat_of_nat b)) 0 counts)
                  (rat_of_nat (length counts));
          variance = js_div (foldl (\<lambda>sum val. js_add sum (Math_pow_2 (js_sub (rat_of_nat val) avg)))
                               0 counts)
                       (rat_of_nat (length counts))
      in if avg > 0 then js_div avg (js_add variance 1) else 0)"

text \<open>One round of the second \<open>forEach\<close>, on the pair \<open>(bestDelimiter, bestScore)\<close>.\<close>

definition best_step :: "jsstring list \<Rightarrow> jschar \<times> rat \<Rightarrow> jschar \<Rightarrow> jschar \<times> rat" where
  "best_step lines best d =
     (case best of (bestDelimiter, bestScore) \<Rightarrow>
        if score lines d > bestScore then (d, score lines d) else (bestDelimiter, bestScore))"

definition detectDelimiter :: "jsstring \<Rightarrow> jsstring" where
  "detectDelimiter text =
     (let lines = take 5 (split_char LF (trim text))
      in [fst (foldl (best_step lines) (COMMA, 0) delimiters)])"

subsection \<open>The detector as the specification words it\<close>

text \<open>
  The score of the specification, \<open>mean / (variance + 1)\<close> of the counts and \<open>0\<close> when
  the mean is \<open>0\<close>, in exact arithmetic; and the lines that the specification scores,
  the first five non-empty ones.
\<close>

definition mean :: "nat list \<Rightarrow> rat" where
  "mean counts = rat_of_nat (sum_list counts) / rat_of_nat (length counts)"

definition variance :: "nat list \<Rightarrow> rat" where
  "variance counts =
     sum_list (map (\<lambda>c. (rat_of_nat c - mean counts) ^ 2) counts) / rat_of_nat (length counts)"

definition score_spec :: "nat list \<Rightarrow> rat" where
  "score_spec counts = (if mean counts = 0 then 0 else mean counts / (variance counts + 1))"

definition lines_spec :: "jsstring \<Rightarrow> jsstring list" where
  "lines_spec text = take 5 (filter (\<lambda>l. l \<noteq> []) (split_char LF text))"

section \<open>The delimited-text parser: \<open>parseCSV\<close>\<close>

type_synonym row = "jsstring list"

text \<open>The four locals of \<open>parseCSV\<close> that the loop updates.\<close>

record csv_state =
  rows :: "row list"
  currentRow :: "row"
  currentCell :: jsstring
  inQuotes :: bool

text \<open>
  \<open>currentRow.push(currentCell.trim()); if (currentRow.some(cell => cell !== ''))
  rows.push(currentRow)\<close>: the two statements shared by the end of a row and the end of
  the input, returning the new \<open>rows\<close>.
\<close>

definition push_row :: "row list \<Rightarrow> row \<Rightarrow> jsstring \<Rightarrow> row list" where
  "push_row rs r cell =
     (let r' = r @ [trim cell] in if (\<exists>c \<in> set r'. c \<noteq> []) then rs @ [r'] else rs)"

text \<open>
  The \<open>for\<close> loop of \<open>parseCSV\<close>, from index \<open>i\<close>. \<open>text[i + 1]\<close> is \<open>undefined\<close> past
  the end, which equals no character. The delimiter is a string, compared with the
  one-character string \<open>char\<close>.
\<close>

function parseCSV_loop :: "jsstring \<Rightarrow> jsstring \<Rightarrow> nat \<Rightarrow> csv_state \<Rightarrow> csv_state" where
  "parseCSV_loop text delimiter i s =
     (if i < length text then
        (let char = text ! i;
             nextChar = (if i + 1 < length text then Some (text ! (i + 1)) else None)
         in if inQuotes s then
              (if char = DQUOTE \<and> nextChar = Some DQUOTE then
                 parseCSV_loop text delimiter (i + 2)
                   (s\<lparr>currentCell := currentCell s @ [DQUOTE]\<rparr>)
               else if char = DQUOTE then
                 parseCSV_loop text delimiter (i + 1) (s\<lparr>inQuotes := False\<rparr>)
               else
                 parseCSV_loop text delimiter (i + 1)
                   (s\<lparr>currentCell := currentCell s @ [char]\<rparr>))
            else
              (if char = DQUOTE then
                 parseCSV_loop text delimiter (i + 1) (s\<lparr>inQuotes := True\<rparr>)
               else if [char] = delimiter then
                 parseCSV_loop text delimiter (i + 1)
                   (s\<lparr>currentRow := currentRow s @ [trim (currentCell s)],
                      currentCell := []\<rparr>)
               else if char = LF \<or> (char = CR \<and> nextChar = Some LF) then
                 parseCSV_loop text delimiter (if char = CR then i + 2 else i + 1)
                   (s\<lparr>rows := push_row (rows s) (currentRow s) (currentCell s),
                      currentRow := [], currentCell := []\<rparr>)
               else if char \<noteq> CR then
                 parseCSV_loop text delimiter (i + 1)
                   (s\<lparr>currentCell := currentCell s @ [char]\<rparr>)
               else
                 parseCSV_loop text delimiter (i + 1) s))
      else s)"
  by pat_completeness auto
termination
  by (relation "measure (\<lambda>(text, delimiter, i, s). length text - i)") auto

declare parseCSV_loop.simps [simp del]

definition parseCSV :: "jsstring \<Rightarrow> jsstring \<Rightarrow> row list" where
  "parseCSV text delimiter =
     (let s = parseCSV_loop text delimiter 0
                \<lparr>rows = [], currentRow = [], currentCell = [], inQuotes = False\<rparr>
      in if currentCell s \<noteq> [] \<or> length (currentRow s) > 0
         then push_row (rows s) (currentRow s) (currentCell s)
         else rows s)"

subsection \<open>The parser as the specification words it\<close>

text \<open>
  The two-state machine of the specification, written from its sentences and not from
  the code: it consumes the input character by character, looking one character ahead
  for an escaped quote and for \<open>\r\n\<close>; the rules are tried in the order the
  specification lists them.
\<close>

datatype quote_mode = Unquoted | Quoted

fun csv_machine ::
  "jsstring \<Rightarrow> quote_mode \<Rightarrow> row list \<Rightarrow> row \<Rightarrow> jsstring \<Rightarrow> jsstring \<Rightarrow> row list" where
  "csv_machine d m rs r cell [] = push_row rs r cell"
| "csv_machine d Quoted rs r cell (c # cs) =
     (if c = DQUOTE then
        (case cs of
           c' # cs' \<Rightarrow>
             if c' = DQUOTE then csv_machine d Quoted rs r (cell @ [DQUOTE]) cs'
             else csv_machine d Unquoted rs r cell cs
         | [] \<Rightarrow> csv_machine d Unquoted rs r cell cs)
      else csv_machine d Quoted rs r (cell @ [c]) cs)"
| "csv_machine d Unquoted rs r cell (c # cs) =
     (if c = DQUOTE then csv_machine d Quoted rs r cell cs
      else if [c] = d then csv_machine d Unquoted rs (r @ [trim cell]) [] cs
      else if c = LF then csv_machine d Unquoted (push_row rs r cell) [] [] cs
      else if c = CR then
        (case cs of
           c' # cs' \<Rightarrow>
             if c' = LF then csv_machine d Unquoted (push_row rs r cell) [] [] cs'
             else csv_machine d Unquoted rs r cell cs
         | [] \<Rightarrow> csv_machine d Unquoted rs r cell cs)
      else csv_machine d Unquoted rs r (cell @ [c]) cs)"

section \<open>CSV export: \<open>dataToCSV\<close>\<close>

text \<open>\<open>cell.replace(/"/g, '""')\<close>\<close>

definition double_quotes :: "jsstring \<Rightarrow> jsstring" where
  "double_quotes cell = concat (map (\<lambda>c. if c = DQUOTE then [DQUOTE, DQUOTE] else [c]) cell)"

definition escape :: "jsstring \<Rightarrow> jsstring" where
  "escape cell =
     (if COMMA \<in> set cell \<or> DQUOTE \<in> set cell \<or> LF \<in> set cell
      then [DQUOTE] @ double_quotes cell @ [DQUOTE]
      else cell)"

text \<open>
  \<open>dataToCSV\<close> reads \<open>this.headers\<close> and \<open>this.filteredData\<close>; they are its two
  arguments here.
\<close>

definition dataToCSV :: "row \<Rightarrow> row list \<Rightarrow> jsstring" where
  "dataToCSV headers filteredData =
     (let headerRow = join [COMMA] (map escape headers);
          dataRows = map (\<lambda>row. join [COMMA] (map escape row)) filteredData
      in join [LF] (headerRow # dataRows))"

text \<open>
  The cells that survive a trip through \<open>dataToCSV\<close> and \<open>parseCSV\<close>: \<open>escape\<close> wraps
  a cell in quotes (\<open>quoted\<close>) for a comma, a quote or a line feed, and not for a carriage
  return, which the parser drops outside quotes; the parser also drops a row all of whose
  cells are blank.
\<close>

definition quoted :: "jsstring \<Rightarrow> bool" where
  "quoted cell \<longleftrightarrow> COMMA \<in> set cell \<or> DQUOTE \<in> set cell \<or> LF \<in> set cell"

definition cell_ok :: "jsstring \<Rightarrow> bool" where
  "cell_ok cell \<longleftrightarrow> (CR \<in> set cell \<longrightarrow> quoted cell)"

definition row_ok :: "row \<Rightarrow> bool" where
  "row_ok r \<longleftrightarrow> (\<exists>c \<in> set r. trim c \<noteq> []) \<and> (\<forall>c \<in> set r. cell_ok c)"

section \<open>Tables and the reconciler\<close>

text \<open>A table as the parsers build it: \<open>{ name, headers, data }\<close>.\<close>

record table =
  name :: jsstring
  headers :: row
  data :: "row list"

text \<open>\<open>Array.prototype.indexOf\<close>: the first index of the value, \<open>-1\<close> when it is absent.\<close>

fun indexOf :: "'a list \<Rightarrow> 'a \<Rightarrow> int" where
  "indexOf [] x = - 1"
| "indexOf (y # ys) x =
     (if y = x then 0 else (let k = indexOf ys x in if k = - 1 then - 1 else k + 1))"

text \<open>
  \<open>getCommonHeaders\<close> reads \<open>this.tables\<close>, its argument here. \<open>allSame\<close> is the
  \<open>every\<close> test of the source; the union loop keeps the set \<open>seen\<close> and the array
  \<open>allHeaders\<close>.
\<close>

definition allSame :: "table list \<Rightarrow> row \<Rightarrow> bool" where
  "allSame tables firstHeaders =
     list_all (\<lambda>t. length (headers t) = length firstHeaders \<and>
                    list_all (\<lambda>i. headers t ! i = firstHeaders ! i) [0..<length (headers t)])
       tables"

definition collect_header :: "jsstring set \<times> row \<Rightarrow> jsstring \<Rightarrow> jsstring set \<times> row" where
  "collect_header acc header =
     (case acc of (seen, allHeaders) \<Rightarrow>
        if header \<notin> seen then (insert header seen, allHeaders @ [header])
        else (seen, allHeaders))"

definition getCommonHeaders :: "table list \<Rightarrow> row" where
  "getCommonHeaders tables =
     (if length tables = 0 then []
      else
        (let firstHeaders = headers (tables ! 0) in
         if allSame tables firstHeaders then firstHeaders
         else snd (foldl (\<lambda>acc t. foldl collect_header acc (headers t)) ({}, []) tables)))"

text \<open>
  \<open>padRowToHeaders\<close>: \<open>result\<close> starts as \<open>commonHeaders.length\<close> empty strings; the
  \<open>forEach\<close> visits the table's headers with their indices, in order.
\<close>

definition pad_step :: "row \<Rightarrow> row \<Rightarrow> row \<Rightarrow> jsstring \<times> nat \<Rightarrow> row" where
  "pad_step commonHeaders row result hi =
     (case hi of (header, i) \<Rightarrow>
        (let commonIndex = indexOf commonHeaders header in
         if commonIndex \<noteq> - 1 \<and> i < length row
         then result[nat commonIndex := row ! i]
         else result))"

definition padRowToHeaders :: "table list \<Rightarrow> row \<Rightarrow> row \<Rightarrow> row" where
  "padRowToHeaders tables row tableHeaders =
     (let commonHeaders = getCommonHeaders tables;
          result = replicate (length commonHeaders) []
      in foldl (pad_step commonHeaders row) result
           (zip tableHeaders [0..<length tableHeaders]))"

section \<open>The document state and sorting\<close>

datatype direction = Asc | Desc

text \<open>
  The fields of the \<open>FormatKing\<close> object that the operations below read and write.
  \<open>sortColumn\<close> is \<open>-1\<close> when no column is sorted; \<open>sortDirection\<close> is one of the strings
  \<open>'asc'\<close> and \<open>'desc'\<close>.
\<close>

record state =
  data :: "row list"
  headers :: row
  sortColumn :: int
  sortDirection :: direction
  filteredData :: "row list"
  tables :: "table list"
  currentTableIndex :: int

text \<open>
  JavaScript numbers, as far as \<open>sortTable\<close> needs them: the value of a decimal literal
  is kept as an exact rational, so the rounding of a literal to the nearest double and
  the overflow of a huge literal to \<open>Infinity\<close> are not modelled.
\<close>

datatype number = NaN | Num rat | PosInfinity | NegInfinity

fun num_minus :: "number \<Rightarrow> number \<Rightarrow> number" where
  "num_minus (Num a) (Num b) = Num (a - b)"
| "num_minus NaN _ = NaN"
| "num_minus _ NaN = NaN"
| "num_minus PosInfinity PosInfinity = NaN"
| "num_minus NegInfinity NegInfinity = NaN"
| "num_minus PosInfinity _ = PosInfinity"
| "num_minus NegInfinity _ = NegInfinity"
| "num_minus (Num a) PosInfinity = NegInfinity"
| "num_minus (Num a) NegInfinity = PosInfinity"

definition is_digit :: "jschar \<Rightarrow> bool" where
  "is_digit c \<longleftrightarrow> 0x30 \<le> c \<and> c \<le> 0x39"

definition digits_value :: "jsstring \<Rightarrow> nat" where
  "digits_value ds = foldl (\<lambda>v c. 10 * v + (c - 0x30)) 0 ds"

text \<open>
  The exponent part of a decimal literal, when the rest of the string starts with one:
  \<open>e\<close> or \<open>E\<close>, an optional sign, and at least one digit.
\<close>

definition exponent :: "jsstring \<Rightarrow> int" where
  "exponent s =
     (case s of
        [] \<Rightarrow> 0
      | c # r \<Rightarrow>
          if c = 0x65 \<or> c = 0x45 then
            (let neg = (r \<noteq> [] \<and> hd r = 0x2D);
                 r' = (if r \<noteq> [] \<and> (hd r = 0x2B \<or> hd r = 0x2D) then tl r else r);
                 ds = takeWhile is_digit r'
             in if ds = [] then 0
                else if neg then - int (digits_value ds) else int (digits_value ds))
          else 0)"

text \<open>
  The built-in \<open>parseFloat\<close>: leading white space is skipped, and the longest prefix
  that is a decimal literal (a sign, then \<open>Infinity\<close> or digits with an optional fraction
  and exponent) gives the value; \<open>NaN\<close> when there is no such prefix.
\<close>

definition parseFloat :: "jsstring \<Rightarrow> number" where
  "parseFloat s =
     (let t = trimStart s;
          neg = (t \<noteq> [] \<and> hd t = 0x2D);
          u = (if t \<noteq> [] \<and> (hd t = 0x2B \<or> hd t = 0x2D) then tl t else t)
      in if take 8 u = str ''Infinity'' then (if neg then NegInfinity else PosInfinity)
         else
           (let ip = takeWhile is_digit u;
                r1 = dropWhile is_digit u;
                dot = (r1 \<noteq> [] \<and> hd r1 = 0x2E);
                fp = (if dot then takeWhile is_digit (tl r1) else []);
                r2 = (if dot then dropWhile is_digit (tl r1) else r1)
            in if ip = [] \<and> fp = [] then NaN
               else
                 (let m = rat_of_nat (digits_value ip) +
                          rat_of_nat (digits_value fp) / 10 ^ length fp;
                      e = exponent r2;
                      v = (if e < 0 then m / 10 ^ nat (- e) else m * 10 ^ nat e)
                  in Num (if neg then - v else v))))"

text \<open>
  \<open>toLowerCase\<close>, on the letters A to Z; the cased letters outside ASCII, which the
  built-in also maps, are left as they are.
\<close>

definition toLowerCase :: "jsstring \<Rightarrow> jsstring" where
  "toLowerCase s = map (\<lambda>c. if 0x41 \<le> c \<and> c \<le> 0x5A then c + 0x20 else c) s"

text \<open>\<open><\<close> on strings: the lexicographic order of the code units.\<close>

fun str_less :: "jsstring \<Rightarrow> jsstring \<Rightarrow> bool" where
  "str_less [] [] = False"
| "str_less [] (y # ys) = True"
| "str_less (x # xs) [] = False"
| "str_less (x # xs) (y # ys) = (x < y \<or> (x = y \<and> str_less xs ys))"

text \<open>\<open>a[columnIndex] || ''\<close>: a missing cell reads as the empty string.\<close>

definition cell_at :: "row \<Rightarrow> int \<Rightarrow> jsstring" where
  "cell_at a columnIndex =
     (if 0 \<le> columnIndex \<and> columnIndex < int (length a) then a ! nat columnIndex else [])"

text \<open>The comparison function that \<open>sortTable\<close> passes to \<open>sort\<close>.\<close>

definition compare_rows :: "int \<Rightarrow> direction \<Rightarrow> row \<Rightarrow> row \<Rightarrow> number" where
  "compare_rows columnIndex dir a b =
     (let valA = cell_at a columnIndex;
          valB = cell_at b columnIndex;
          numA = parseFloat valA;
          numB = parseFloat valB
      in if numA \<noteq> NaN \<and> numB \<noteq> NaN then
           (if dir = Asc then num_minus numA numB else num_minus numB numA)
         else
           (let lowA = toLowerCase valA; lowB = toLowerCase valB
            in if str_less lowA lowB then (if dir = Asc then Num (- 1) else Num 1)
               else if str_less lowB lowA then (if dir = Asc then Num 1 else Num (- 1))
               else Num 0))"

text \<open>
  The built-in \<open>Array.prototype.sort\<close>, as a stable insertion sort: an element moves
  behind another one only when the comparison function returns a positive number. For a
  comparison function that is a consistent order, every conforming implementation
  returns this list.
\<close>

fun positive :: "number \<Rightarrow> bool" where
  "positive (Num x) = (x > 0)"
| "positive PosInfinity = True"
| "positive _ = False"

fun sort_insert :: "('a \<Rightarrow> 'a \<Rightarrow> number) \<Rightarrow> 'a \<Rightarrow> 'a list \<Rightarrow> 'a list" where
  "sort_insert cmp x [] = [x]"
| "sort_insert cmp x (y # ys) =
     (if positive (cmp x y) then y # sort_insert cmp x ys else x # y # ys)"

definition js_sort :: "('a \<Rightarrow> 'a \<Rightarrow> number) \<Rightarrow> 'a list \<Rightarrow> 'a list" where
  "js_sort cmp xs = foldr (sort_insert cmp) xs []"

definition sortTable :: "int \<Rightarrow> state \<Rightarrow> state" where
  "sortTable columnIndex st =
     (let st1 = (if sortColumn st = columnIndex
                 then st\<lparr>sortDirection := (if sortDirection st = Asc then Desc else Asc)\<rparr>
                 else st\<lparr>sortColumn := columnIndex, sortDirection := Asc\<rparr>)
      in st1\<lparr>filteredData :=
               js_sort (compare_rows columnIndex (sortDirection st1)) (filteredData st1)\<rparr>)"

section \<open>Regular expressions\<close>

text \<open>
  The patterns of the source use character classes, sequence, alternation and
  repetition only (no back-references, no look-ahead), so \<open>test\<close> asks whether some
  substring at an allowed position belongs to the language of the pattern. A pattern is
  a term of \<open>rx\<close>; membership is decided with derivatives.
\<close>

datatype rx = RNone | REmpty | RChar "jschar \<Rightarrow> bool" | RSeq rx rx | RAlt rx rx | RStar rx

fun nullable :: "rx \<Rightarrow> bool" where
  "nullable RNone = False"
| "nullable REmpty = True"
| "nullable (RChar p) = False"
| "nullable (RSeq r s) = (nullable r \<and> nullable s)"
| "nullable (RAlt r s) = (nullable r \<or> nullable s)"
| "nullable (RStar r) = True"

fun deriv :: "jschar \<Rightarrow> rx \<Rightarrow> rx" where
  "deriv c RNone = RNone"
| "deriv c REmpty = RNone"
| "deriv c (RChar p) = (if p c then REmpty else RNone)"
| "deriv c (RSeq r s) =
     (if nullable r then RAlt (RSeq (deriv c r) s) (deriv c s) else RSeq (deriv c r) s)"
| "deriv c (RAlt r s) = RAlt (deriv c r) (deriv c s)"
| "deriv c (RStar r) = RSeq (deriv c r) (RStar r)"

text \<open>
  The meaning of a pattern: the set of the strings it matches. The functions above
  and below are checked against it in the section on the properties of the patterns.
\<close>

inductive_set repeated :: "jsstring set \<Rightarrow> jsstring set" for A :: "jsstring set" where
  none: "[] \<in> repeated A"
| more: "u \<in> A \<Longrightarrow> v \<in> repeated A \<Longrightarrow> u @ v \<in> repeated A"

fun lang :: "rx \<Rightarrow> jsstring set" where
  "lang RNone = {}"
| "lang REmpty = {[]}"
| "lang (RChar p) = {[c] | c. p c}"
| "lang (RSeq r s) = {u @ v | u v. u \<in> lang r \<and> v \<in> lang s}"
| "lang (RAlt r s) = lang r \<union> lang s"
| "lang (RStar r) = repeated (lang r)"

text \<open>
  \<open>rx_matches\<close>: the whole string matches (a pattern between \<open>^\<close> and \<open>$\<close>, without
  the \<open>m\<close> flag). \<open>rx_prefix\<close>: some prefix of the string matches. \<open>rx_search\<close>: some
  substring matches (a pattern without anchors).
\<close>

fun rx_matches :: "rx \<Rightarrow> jsstring \<Rightarrow> bool" where
  "rx_matches r [] = nullable r"
| "rx_matches r (c # cs) = rx_matches (deriv c r) cs"

fun rx_prefix :: "rx \<Rightarrow> jsstring \<Rightarrow> bool" where
  "rx_prefix r [] = nullable r"
| "rx_prefix r (c # cs) = (nullable r \<or> rx_prefix (deriv c r) cs)"

fun rx_search :: "rx \<Rightarrow> jsstring \<Rightarrow> bool" where
  "rx_search r [] = nullable r"
| "rx_search r (c # cs) = (rx_prefix r (c # cs) \<or> rx_search r cs)"

text \<open>
  With the \<open>m\<close> flag, \<open>^\<close> matches at the start of the text and after a line
  terminator, \<open>$\<close> at the end of the text and before a line terminator. \<open>search_bol m\<close>
  tries the matcher \<open>m\<close> at every line start; \<open>rx_prefix_eol\<close> asks for a matching prefix
  that ends at a line end.
\<close>

definition is_lt :: "jschar \<Rightarrow> bool" where
  "is_lt c \<longleftrightarrow> c = LF \<or> c = CR \<or> c = 0x2028 \<or> c = 0x2029"

fun rx_prefix_eol :: "rx \<Rightarrow> jsstring \<Rightarrow> bool" where
  "rx_prefix_eol r [] = nullable r"
| "rx_prefix_eol r (c # cs) = ((nullable r \<and> is_lt c) \<or> rx_prefix_eol (deriv c r) cs)"

fun search_bol :: "(jsstring \<Rightarrow> bool) \<Rightarrow> bool \<Rightarrow> jsstring \<Rightarrow> bool" where
  "search_bol m bol [] = (bol \<and> m [])"
| "search_bol m bol (c # cs) = ((bol \<and> m (c # cs)) \<or> search_bol m (is_lt c) cs)"

definition test_bol :: "rx \<Rightarrow> jsstring \<Rightarrow> bool" where
  "test_bol r s = search_bol (rx_prefix r) True s"

definition test_bol_eol :: "rx \<Rightarrow> jsstring \<Rightarrow> bool" where
  "test_bol_eol r s = search_bol (rx_prefix_eol r) True s"

text \<open>
  The pieces of the patterns: one character, a character class, \<open>r+\<close>, \<open>r?\<close>,
  \<open>\s\<close>, the dot (any character but a line terminator), and a literal string.
\<close>

definition rx_ch :: "jschar \<Rightarrow> rx" where
  "rx_ch c = RChar (\<lambda>x. x = c)"

definition rx_one_of :: "jschar list \<Rightarrow> rx" where
  "rx_one_of cs = RChar (\<lambda>x. x \<in> set cs)"

definition rx_plus :: "rx \<Rightarrow> rx" where
  "rx_plus r = RSeq r (RStar r)"

definition rx_opt :: "rx \<Rightarrow> rx" where
  "rx_opt r = RAlt r REmpty"

definition rx_ws :: rx where
  "rx_ws = RChar is_ws"

definition rx_dot :: rx where
  "rx_dot = RChar (\<lambda>x. \<not> is_lt x)"

fun rx_lit :: "jsstring \<Rightarrow> rx" where
  "rx_lit [] = REmpty"
| "rx_lit (c # cs) = RSeq (rx_ch c) (rx_lit cs)"

section \<open>Box tables\<close>

text \<open>
  \<open>isDatabricksFormat\<close>. The five tests are, in the order of the source:
  \<open>/^\s*\+[-+]+\+/m\<close>, \<open>/^\s*\|.+\|/m\<close>, \<open>/^=+\s*\n\s*TABLE:/m\<close>, a character of the
  class of box-drawing characters (U+250C, U+2510, U+2514, U+2518, U+251C, U+2524, U+252C,
  U+2534, U+253C, U+2500, U+2502), and the second pattern with the vertical bar U+2502 in place of \<open>|\<close>.
\<close>

definition isDatabricksFormat :: "jsstring \<Rightarrow> bool" where
  "isDatabricksFormat text =
     (let hasBorderLines =
            test_bol (RSeq (RStar rx_ws) (RSeq (rx_ch 0x2B)
              (RSeq (rx_plus (rx_one_of [0x2D, 0x2B])) (rx_ch 0x2B)))) text;
          hasDataLines =
            test_bol (RSeq (RStar rx_ws) (RSeq (rx_ch 0x7C) (RSeq (rx_plus rx_dot) (rx_ch 0x7C)))) text;
          hasTableHeader =
            (test_bol (RSeq (rx_plus (rx_ch 0x3D)) (RSeq (RStar rx_ws) (RSeq (rx_ch LF)
               (RSeq (RStar rx_ws) (rx_lit (str ''TABLE:'')))))) text \<or> hasBorderLines);
          hasUnicodeBorders =
            (\<exists>c \<in> set text. c \<in> set [0x250C, 0x2510, 0x2514, 0x2518, 0x251C, 0x2524, 0x252C,
                                       0x2534, 0x253C, 0x2500, 0x2502]);
          hasUnicodeDataLines =
            test_bol (RSeq (RStar rx_ws) (RSeq (rx_ch 0x2502)
              (RSeq (rx_plus rx_dot) (rx_ch 0x2502)))) text
      in (hasBorderLines \<and> hasDataLines) \<or> hasTableHeader \<or>
         (hasUnicodeBorders \<and> hasUnicodeDataLines))"

text \<open>
  The decimal digits of a number, for the template literals \<open>`Table ${n}`\<close> and the
  notifications.
\<close>

function nat_to_string :: "nat \<Rightarrow> jsstring" where
  "nat_to_string n =
     (if n < 10 then [0x30 + n] else nat_to_string (n div 10) @ [0x30 + n mod 10])"
  by pat_completeness auto
termination
  by (relation "measure id") auto

declare nat_to_string.simps [simp del]

text \<open>
  \<open>/^[...]/.test(s)\<close> and \<open>s.startsWith(c)\<close>: the first character of \<open>s\<close> is one of
  the given characters.
\<close>

definition startsWith :: "jsstring \<Rightarrow> jschar list \<Rightarrow> bool" where
  "startsWith s cs = (s \<noteq> [] \<and> hd s \<in> set cs)"

text \<open>
  \<open>s.replace(/,+$/, '')\<close>: the first match of the pattern starts at the first comma of
  the trailing run of commas, so the run is removed.
\<close>

definition strip_trailing_commas :: "jsstring \<Rightarrow> jsstring" where
  "strip_trailing_commas s = rev (dropWhile (\<lambda>c. c = COMMA) (rev s))"

text \<open>
  \<open>line.match(/^TABLE:\s*(.+)$/)\<close>, returning the captured group: after the prefix
  \<open>TABLE:\<close>, the greedy \<open>\s*\<close> takes the longest run of white space that leaves a
  non-empty rest without line terminators for \<open>(.+)\<close>.
\<close>

definition tableNameMatch :: "jsstring \<Rightarrow> jsstring option" where
  "tableNameMatch line =
     (if take 6 line = str ''TABLE:'' then
        (let rest = drop 6 line in
         case find (\<lambda>k. rx_matches (RStar rx_ws) (take k rest) \<and>
                        rx_matches (rx_plus rx_dot) (drop k rest))
                (rev [0..<Suc (length rest)]) of
           None \<Rightarrow> None
         | Some k \<Rightarrow> Some (drop k rest))
      else None)"

text \<open>
  The separator lines: \<open>/^=+$/\<close>, \<open>/^\+[-+]+\+?$/\<close> and the Unicode borders
  \<open>/^[U+250C U+251C U+2514][U+2500 U+252C U+253C U+2534]+[U+2510 U+2524 U+2518]?$/\<close>.
\<close>

definition is_separator :: "jsstring \<Rightarrow> bool" where
  "is_separator cleanLine \<longleftrightarrow>
     rx_matches (rx_plus (rx_ch 0x3D)) cleanLine \<or>
     rx_matches (RSeq (rx_ch 0x2B) (RSeq (rx_plus (rx_one_of [0x2D, 0x2B])) (rx_opt (rx_ch 0x2B))))
       cleanLine \<or>
     rx_matches (RSeq (rx_one_of [0x250C, 0x251C, 0x2514])
                  (RSeq (rx_plus (rx_one_of [0x2500, 0x252C, 0x253C, 0x2534]))
                     (rx_opt (rx_one_of [0x2510, 0x2524, 0x2518])))) cleanLine"

text \<open>
  The cells of a data line (a line that starts with \<open>|\<close> or with U+2502), the same
  statements in \<open>parseDatabricksFormat\<close> and in \<open>parseSingleAsciiTable\<close>; \<open>None\<close> for
  a line that is not a data line.
\<close>

definition data_line_cells :: "jsstring \<Rightarrow> row option" where
  "data_line_cells cleanLine =
     (let isAsciiDataLine = startsWith cleanLine [0x7C];
          isUnicodeDataLine = startsWith cleanLine [0x2502]
      in if isAsciiDataLine \<or> isUnicodeDataLine then
           (let delimiter = (if isUnicodeDataLine then 0x2502 else 0x7C);
                content = tl cleanLine;
                content' = (if content \<noteq> [] \<and> last content = delimiter
                            then butlast content else content)
            in Some (map trim (split_char delimiter content')))
         else None)"

text \<open>
  The locals of the loop of \<open>parseDatabricksFormat\<close>; \<open>db_tables\<close> is its \<open>tables\<close>.
\<close>

record db_state =
  db_tables :: "table list"
  currentTableName :: "jsstring option"
  currentRows :: "row list"
  inTable :: bool
  headerParsed :: bool
  currentHeaders :: row

text \<open>
\<open>name || dflt\<close>, for a name that is \<open>null\<close> or a string.
\<close>

definition name_or :: "jsstring option \<Rightarrow> jsstring \<Rightarrow> jsstring" where
  "name_or n dflt = (case n of None \<Rightarrow> dflt | Some s \<Rightarrow> if s = [] then dflt else s)"

text \<open>
  The \<open>push\<close> of the table in progress, done at a \<open>TABLE:\<close> line and after the
  loop: only a table with headers and at least one row is kept.
\<close>

definition flush_table :: "db_state \<Rightarrow> table list" where
  "flush_table st =
     (if length (currentRows st) > 0 \<and> length (currentHeaders st) > 0
      then db_tables st @
             [\<lparr>name = name_or (currentTableName st)
                       (str ''Table '' @ nat_to_string (length (db_tables st) + 1)),
               headers = currentHeaders st, data = currentRows st\<rparr>]
      else db_tables st)"

definition db_step :: "db_state \<Rightarrow> jsstring \<Rightarrow> db_state" where
  "db_step st l =
     (let line = trim l in
      case tableNameMatch line of
        Some tableName \<Rightarrow>
          \<lparr>db_tables = flush_table st, currentTableName = Some (trim tableName),
           currentRows = [], inTable = False, headerParsed = False, currentHeaders = []\<rparr>
      | None \<Rightarrow>
          (let cleanLine = trim (strip_trailing_commas line) in
           if is_separator cleanLine then st\<lparr>inTable := True\<rparr>
           else
             (case data_line_cells cleanLine of
                Some cells \<Rightarrow>
                  if \<not> headerParsed st
                  then st\<lparr>currentHeaders := cells, headerParsed := True\<rparr>
                  else st\<lparr>currentRows := currentRows st @ [cells]\<rparr>
              | None \<Rightarrow> st)))"

text \<open>
  \<open>parseSingleAsciiTable\<close>. The first loop looks for a title: \<open>border_ahead\<close> is its
  inner loop over the next three lines, \<open>find_title\<close> the outer loop. The second loop
  (\<open>single_step\<close>) collects the header row and the data rows.
\<close>

fun border_ahead :: "jsstring list \<Rightarrow> bool" where
  "border_ahead [] = False"
| "border_ahead (l # ls) =
     (let nextLine = trim l in
      if startsWith nextLine [0x250C, 0x2B] then True
      else if startsWith nextLine [0x2502, 0x7C] then False
      else border_ahead ls)"

fun find_title :: "jsstring list \<Rightarrow> jsstring option" where
  "find_title [] = None"
| "find_title (l # ls) =
     (let trimmed = trim l in
      if trimmed \<noteq> [] \<and> \<not> startsWith trimmed [0x250C, 0x251C, 0x2514, 0x2B] \<and>
         \<not> startsWith trimmed [0x2502, 0x7C] \<and> \<not> rx_matches (rx_plus (rx_ch 0x3D)) trimmed \<and>
         border_ahead (take 3 ls)
      then Some trimmed
      else if startsWith trimmed [0x250C, 0x2B, 0x2502, 0x7C] then None
      else find_title ls)"

definition single_step :: "bool \<times> row \<times> row list \<Rightarrow> jsstring \<Rightarrow> bool \<times> row \<times> row list" where
  "single_step acc line =
     (case acc of (parsed, hdrs, dat) \<Rightarrow>
        (let trimmed = trim (strip_trailing_commas (trim line)) in
         if is_separator trimmed then acc
         else
           (case data_line_cells trimmed of
              Some cells \<Rightarrow>
                if \<not> parsed then (True, cells, dat) else (parsed, hdrs, dat @ [cells])
            | None \<Rightarrow> acc)))"

definition parseSingleAsciiTable :: "jsstring \<Rightarrow> table option" where
  "parseSingleAsciiTable text =
     (let lines = split_char LF text;
          tableName = find_title lines
      in case foldl single_step (False, [], []) lines of
           (parsed, hdrs, dat) \<Rightarrow>
             if length hdrs > 0
             then Some \<lparr>name = name_or tableName (str ''Table 1''), headers = hdrs, data = dat\<rparr>
             else None)"

definition parseDatabricksFormat :: "jsstring \<Rightarrow> table list" where
  "parseDatabricksFormat text =
     (let st = foldl db_step
                 \<lparr>db_tables = [], currentTableName = None, currentRows = [], inTable = False,
                  headerParsed = False, currentHeaders = []\<rparr>
                 (split_char LF text);
          tbls = flush_table st
      in if length tbls = 0 then
           (case parseSingleAsciiTable text of
              Some singleTable \<Rightarrow> tbls @ [singleTable]
            | None \<Rightarrow> tbls)
         else tbls)"

section \<open>Markdown tables\<close>

text \<open>
  The separator row \<open>/^\|?\s*:?-{2,}:?\s*(\|\s*:?-{2,}:?\s*)+\|?\s*$/\<close>; \<open>sep_cell\<close> is
  \<open>:?-{2,}:?\<close>.
\<close>

definition sep_cell :: rx where
  "sep_cell = RSeq (rx_opt (rx_ch 0x3A))
               (RSeq (rx_ch 0x2D) (RSeq (rx_ch 0x2D) (RSeq (RStar (rx_ch 0x2D)) (rx_opt (rx_ch 0x3A)))))"

definition separatorPattern :: rx where
  "separatorPattern =
     RSeq (rx_opt (rx_ch 0x7C)) (RSeq (RStar rx_ws) (RSeq sep_cell (RSeq (RStar rx_ws)
       (RSeq (rx_plus (RSeq (rx_ch 0x7C) (RSeq (RStar rx_ws) (RSeq sep_cell (RStar rx_ws)))))
          (RSeq (rx_opt (rx_ch 0x7C)) (RStar rx_ws))))))"

definition isMarkdownTable :: "jsstring \<Rightarrow> bool" where
  "isMarkdownTable text =
     (if \<not> test_bol_eol separatorPattern text then False
      else
        (let lines = filter (\<lambda>l. trim l \<noteq> []) (split_char LF text);
             dataLines = filter (\<lambda>l. 0x7C \<in> set l \<and>
                 \<not> rx_matches (rx_plus (RChar (\<lambda>c. is_ws c \<or> c \<in> set [0x7C, 0x3A, 0x2A, 0x2D])))
                     (trim l)) lines
         in length dataLines \<ge> 1))"

text \<open>
  \<open>text.split(/\n\s*\n/)\<close>: a separator starts at a line feed that is followed by
  white space holding another line feed, and extends to the last line feed of that
  white space (\<open>\s*\<close> is greedy). \<open>piece\<close> is the text since the last separator.
\<close>

function split_blank_lines :: "jsstring \<Rightarrow> jsstring \<Rightarrow> jsstring list" where
  "split_blank_lines piece [] = [piece]"
| "split_blank_lines piece (c # cs) =
     (let w = takeWhile is_ws cs in
      if c = LF \<and> LF \<in> set w
      then piece # split_blank_lines [] (drop (length (dropWhile (\<lambda>x. x \<noteq> LF) (rev w))) cs)
      else split_blank_lines (piece @ [c]) cs)"
  by pat_completeness auto
termination
  by (relation "measure (\<lambda>(piece, s). length s)") auto

definition findIndex :: "('a \<Rightarrow> bool) \<Rightarrow> 'a list \<Rightarrow> int" where
  "findIndex p xs =
     (case find (\<lambda>i. p (xs ! i)) [0..<length xs] of None \<Rightarrow> - 1 | Some i \<Rightarrow> int i)"

definition splitRow :: "jsstring \<Rightarrow> row" where
  "splitRow line =
     (let s = trim line;
          s1 = (if s \<noteq> [] \<and> hd s = 0x7C then tl s else s);
          s2 = (if s1 \<noteq> [] \<and> last s1 = 0x7C then butlast s1 else s1)
      in map trim (split_char 0x7C s2))"

text \<open>
The body of the loop over the blocks, on the array \<open>tables\<close>.
\<close>

definition md_block :: "table list \<Rightarrow> jsstring \<Rightarrow> table list" where
  "md_block tbls block =
     (let lines = filter (\<lambda>l. trim l \<noteq> []) (split_char LF block);
          sepIndex = findIndex (\<lambda>l. rx_matches separatorPattern (trim l)) lines
      in if sepIndex < 1 then tbls
         else
           (let hdrs = splitRow (lines ! (nat sepIndex - 1));
                dat = map splitRow (filter (\<lambda>l. 0x7C \<in> set l) (drop (nat sepIndex + 1) lines))
            in if length hdrs > 0 \<and> length dat > 0
               then tbls @ [\<lparr>name = str ''Table '' @ nat_to_string (length tbls + 1),
                             headers = hdrs, data = dat\<rparr>]
               else tbls))"

definition parseMarkdownTable :: "jsstring \<Rightarrow> table list" where
  "parseMarkdownTable text = foldl md_block [] (split_blank_lines [] text)"

section \<open>Fixed-width tables\<close>

definition nonblank_lines :: "jsstring \<Rightarrow> jsstring list" where
  "nonblank_lines text = filter (\<lambda>l. trim l \<noteq> []) (split_char LF text)"

text \<open>
\<open>Math.max(...lines.map(l => l.length))\<close>, on a non-empty array.
\<close>

definition max_length :: "'a list list \<Rightarrow> nat" where
  "max_length lines = foldr max (map length lines) 0"

text \<open>
  \<open>spaceCount[i] >= threshold\<close> with \<open>threshold = contentLines.length * 0.8\<close>. The
  source multiplies in double precision; the product is compared with an integer, and
  for a number of lines that is a multiple of five the product rounds to the exact
  integer (the double nearest to 0.8 exceeds it by less than half a unit in the last
  place of the product), so the comparison is the exact one on integers.
\<close>

definition at_threshold :: "nat \<Rightarrow> nat \<Rightarrow> bool" where
  "at_threshold count n \<longleftrightarrow> 5 * count \<ge> 4 * n"

text \<open>
  One round of the loop over the columns in \<open>isFixedWidthTable\<close>, on
  \<open>(boundaries, inGap, gapWidth)\<close>; a line shorter than \<open>i\<close> counts as a space.
\<close>

definition gap_count_step ::
  "jsstring list \<Rightarrow> nat \<times> bool \<times> nat \<Rightarrow> nat \<Rightarrow> nat \<times> bool \<times> nat" where
  "gap_count_step contentLines acc i =
     (case acc of (boundaries, inGap, gapWidth) \<Rightarrow>
        (let spaceCount =
               length (filter (\<lambda>line. (if i < length line then line ! i else 0x20) = 0x20)
                         contentLines)
         in if at_threshold spaceCount (length contentLines) then
              (if gapWidth + 1 \<ge> 2 \<and> \<not> inGap then (boundaries + 1, True, gapWidth + 1)
               else (boundaries, inGap, gapWidth + 1))
            else (boundaries, False, 0)))"

definition isFixedWidthTable :: "jsstring \<Rightarrow> bool" where
  "isFixedWidthTable text =
     (let lines = nonblank_lines text in
      if length lines < 3 then False
      else
        (let maxLen = max_length lines in
         if maxLen < 5 then False
         else
           (let contentLines =
                  filter (\<lambda>l. \<not> rx_matches
                     (rx_plus (RChar (\<lambda>c. is_ws c \<or> c = 0x2D \<or> c = 0x3D))) l) lines
            in if length contentLines < 2 then False
               else
                 (case foldl (gap_count_step contentLines) (0, False, 0) [0..<maxLen] of
                    (boundaries, inGap, gapWidth) \<Rightarrow> boundaries \<ge> 1))))"

definition padEnd :: "nat \<Rightarrow> jsstring \<Rightarrow> jsstring" where
  "padEnd n l = l @ replicate (n - length l) 0x20"

text \<open>
\<open>/^[\s\-=]+$/.test(l) && /[-=]{2,}/.test(l)\<close>
\<close>

definition isUnderline :: "jsstring \<Rightarrow> bool" where
  "isUnderline l \<longleftrightarrow>
     rx_matches (rx_plus (RChar (\<lambda>c. is_ws c \<or> c = 0x2D \<or> c = 0x3D))) l \<and>
     rx_search (RSeq (rx_one_of [0x2D, 0x3D]) (rx_one_of [0x2D, 0x3D])) l"

text \<open>
  One round of the loop over the columns in \<open>parseFixedWidthTable\<close>, on
  \<open>(cuts, inGap, gapStart)\<close>.
\<close>

definition cut_step ::
  "jsstring list \<Rightarrow> nat list \<times> bool \<times> int \<Rightarrow> nat \<Rightarrow> nat list \<times> bool \<times> int" where
  "cut_step contentLines acc i =
     (case acc of (cuts, inGap, gapStart) \<Rightarrow>
        (let spaceCount = length (filter (\<lambda>line. line ! i = 0x20) contentLines)
         in if at_threshold spaceCount (length contentLines) then
              (if \<not> inGap then (cuts, True, int i) else (cuts, inGap, gapStart))
            else
              (if inGap then
                 (let gapWidth = int i - gapStart in
                  if gapWidth \<ge> 2 then (cuts @ [nat ((gapStart + int i) div 2)], False, gapStart)
                  else (cuts, False, gapStart))
               else (cuts, inGap, gapStart))))"

text \<open>
\<open>sliceLine\<close>, with the running \<open>prev\<close>.
\<close>

fun sliceLine :: "nat list \<Rightarrow> nat \<Rightarrow> jsstring \<Rightarrow> row" where
  "sliceLine [] prev line = [trim (drop prev line)]"
| "sliceLine (c # cuts) prev line =
     trim (take (c - prev) (drop prev line)) # sliceLine cuts c line"

definition parseFixedWidthTable :: "jsstring \<Rightarrow> table option" where
  "parseFixedWidthTable text =
     (let lines = nonblank_lines text in
      if length lines < 2 then None
      else
        (let maxLen = max_length lines;
             padded = map (padEnd maxLen) lines;
             contentLines = filter (\<lambda>l. \<not> isUnderline l) padded
         in if length contentLines < 2 then None
            else
              (case foldl (cut_step contentLines) ([], False, - 1) [0..<maxLen] of
                 (cuts, inGap, gapStart) \<Rightarrow>
                   if length cuts = 0 then None
                   else
                     (let hdrs = sliceLine cuts 0 (contentLines ! 0);
                          dat = filter (\<lambda>row. \<exists>c \<in> set row. c \<noteq> [])
                                  (map (sliceLine cuts 0) (tl contentLines))
                      in if length dat = 0 then None
                         else Some \<lparr>name = str ''Table 1'', headers = hdrs, data = dat\<rparr>))))"

section \<open>JSON arrays\<close>

text \<open>
  \<open>JSON.parse\<close> and the operations on the values it returns are built-ins of the
  JavaScript runtime. They are taken as a parameter: \<open>'j\<close> is the type of JavaScript
  values, \<open>JSON_parse\<close> returns \<open>None\<close> when the built-in throws, \<open>get_property\<close> returns
  \<open>None\<close> for \<open>undefined\<close>, \<open>typeof_object\<close> is \<open>typeof v === 'object'\<close>.
\<close>

record 'j runtime =
  JSON_parse :: "jsstring \<Rightarrow> 'j option"
  Array_isArray :: "'j \<Rightarrow> bool"
  array_elements :: "'j \<Rightarrow> 'j list"
  typeof_object :: "'j \<Rightarrow> bool"
  is_null :: "'j \<Rightarrow> bool"
  Object_keys :: "'j \<Rightarrow> jsstring list"
  get_property :: "'j \<Rightarrow> jsstring \<Rightarrow> 'j option"
  JSON_stringify :: "'j \<Rightarrow> jsstring"
  String_of :: "'j \<Rightarrow> jsstring"

text \<open>
\<open>typeof obj === 'object' && obj !== null && !Array.isArray(obj)\<close>
\<close>

definition plain_object :: "'j runtime \<Rightarrow> 'j \<Rightarrow> bool" where
  "plain_object rt obj \<longleftrightarrow> typeof_object rt obj \<and> \<not> is_null rt obj \<and> \<not> Array_isArray rt obj"

definition isJSONArray :: "'j runtime \<Rightarrow> jsstring \<Rightarrow> bool" where
  "isJSONArray rt text =
     (let trimmed = trimStart text in
      if \<not> (trimmed \<noteq> [] \<and> hd trimmed = 0x5B) then False
      else
        (case JSON_parse rt trimmed of
           None \<Rightarrow> False
         | Some parsed \<Rightarrow>
             Array_isArray rt parsed \<and> length (array_elements rt parsed) > 0 \<and>
             plain_object rt (array_elements rt parsed ! 0)))"

text \<open>
  \<open>parseJSONArray\<close>; \<open>None\<close> when \<open>JSON.parse\<close> throws. \<open>keySet\<close> is a \<open>Set\<close>, which keeps
  the order of insertion.
\<close>

definition parseJSONArray :: "'j runtime \<Rightarrow> jsstring \<Rightarrow> table option" where
  "parseJSONArray rt text =
     (case JSON_parse rt (trimStart text) of
        None \<Rightarrow> None
      | Some arr \<Rightarrow>
          (let objs = filter (plain_object rt) (array_elements rt arr);
               hdrs = snd (foldl (\<lambda>keySet obj. foldl collect_header keySet (Object_keys rt obj))
                            ({}, []) objs);
               dat = map (\<lambda>obj. map (\<lambda>h.
                        case get_property rt obj h of
                          None \<Rightarrow> []
                        | Some val \<Rightarrow>
                            if is_null rt val then []
                            else if typeof_object rt val then JSON_stringify rt val
                            else String_of rt val) hdrs) objs
           in Some \<lparr>name = str ''JSON Data'', headers = hdrs, data = dat\<rparr>))"

section \<open>Loading tables into the document state\<close>

definition switchToTable :: "int \<Rightarrow> state \<Rightarrow> state" where
  "switchToTable index st =
     (if index = - 1 then
        (let dat = concat (map (\<lambda>t. map (\<lambda>row. table.name t #
                              padRowToHeaders (tables st) row (table.headers t)) (table.data t))
                        (tables st))
         in st\<lparr>currentTableIndex := - 1,
               headers := str ''Table'' # getCommonHeaders (tables st),
               data := dat, filteredData := dat, sortColumn := - 1\<rparr>)
      else if index \<ge> 0 \<and> index < int (length (tables st)) then
        (let t = tables st ! nat index
         in st\<lparr>currentTableIndex := index, headers := table.headers t, data := table.data t,
               filteredData := table.data t, sortColumn := - 1\<rparr>)
      else st)"

text \<open>
  \<open>updateTableSelector\<close>: with more than one table the selector is shown, with an
  option for the All Tables view and one option per table; otherwise it is hidden.
  The result is what the page shows afterwards: \<open>None\<close> for the hidden selector, the
  values and labels of the options for the shown one. \<open>formatFromText\<close> calls it right
  after every assignment to \<open>this.tables\<close>.
\<close>

definition updateTableSelector :: "state \<Rightarrow> (int \<times> jsstring) list option" where
  "updateTableSelector st =
     (if length (tables st) > 1 then
        Some ((- 1, str ''All Tables ('' @ nat_to_string
                  (foldl (\<lambda>sum t. sum + length (table.data t)) 0 (tables st)) @ str '' rows)'') #
              map (\<lambda>i. (int i, table.name (tables st ! i) @ str '' ('' @
                           nat_to_string (length (table.data (tables st ! i))) @ str '' rows)''))
                [0..<length (tables st)])
      else None)"

text \<open>The fields as the constructor sets them.\<close>

definition constructor :: state where
  "constructor =
     \<lparr>data = [], headers = [], sortColumn = - 1, sortDirection = Asc, filteredData = [],
      tables = [], currentTableIndex = 0\<rparr>"

text \<open>
  What an operation shows to the user: the text of the notification (\<open>showToast\<close>), or
  an exception that nothing catches.
\<close>

datatype outcome = Toast jsstring | Uncaught

definition processData :: "bool \<Rightarrow> row list \<Rightarrow> state \<Rightarrow> state \<times> outcome" where
  "processData firstRowHeader rws st =
     (if length rws = 0 then (st, Toast (str ''No data found''))
      else
        (let maxCols = max_length rws;
             rws' = map (\<lambda>row. row @ replicate (maxCols - length row) []) rws;
             hdrs = (if firstRowHeader \<and> length rws' > 0 then rws' ! 0
                     else map (\<lambda>i. str ''Column '' @ nat_to_string (i + 1))
                            [0..<length (rws' ! 0)]);
             dat = (if firstRowHeader \<and> length rws' > 0 then drop 1 rws' else rws')
         in (st\<lparr>headers := hdrs, data := dat, filteredData := dat, sortColumn := - 1\<rparr>,
             Toast (str ''Loaded '' @ nat_to_string (length dat) @ str '' rows''))))"

definition totalRows :: "table list \<Rightarrow> nat" where
  "totalRows tbls = foldl (\<lambda>sum t. sum + length (table.data t)) 0 tbls"

text \<open>
  \<open>this.tables = tables; this.switchToTable(tables.length > 1 ? -1 : 0)\<close>, shared by
  the box-table and the Markdown branch.
\<close>

definition load_tables :: "table list \<Rightarrow> state \<Rightarrow> state" where
  "load_tables tbls st =
     (let defaultView = (if length tbls > 1 then - 1 else 0)
      in switchToTable defaultView (st\<lparr>tables := tbls\<rparr>))"

section \<open>The format classifier: \<open>formatFromText\<close>\<close>

text \<open>
  The four \<open>if\<close> blocks of \<open>formatFromText\<close>, one definition each: \<open>Some\<close> when the
  block returns, with the new state and the notification, \<open>None\<close> when control falls
  through to the next block.
\<close>

definition box_stage :: "jsstring \<Rightarrow> state \<Rightarrow> (state \<times> outcome) option" where
  "box_stage text st =
     (if isDatabricksFormat text then
        (let tbls = parseDatabricksFormat text in
         if length tbls > 0 then
           Some (load_tables tbls st,
                 Toast (str ''Loaded '' @ nat_to_string (length tbls) @ str '' table(s), '' @
                        nat_to_string (totalRows tbls) @ str '' total rows''))
         else None)
      else None)"

definition markdown_stage :: "jsstring \<Rightarrow> state \<Rightarrow> (state \<times> outcome) option" where
  "markdown_stage text st =
     (if isMarkdownTable text then
        (let tbls = parseMarkdownTable text in
         if length tbls > 0 then
           Some (load_tables tbls st,
                 Toast (str ''Loaded '' @ nat_to_string (length tbls) @ str '' Markdown table(s), '' @
                        nat_to_string (totalRows tbls) @ str '' total rows''))
         else None)
      else None)"

text \<open>
  \<open>parseJSONArray\<close> parses the text that \<open>isJSONArray\<close> has just parsed; were it to
  throw, the exception would leave the handler.
\<close>

definition json_stage :: "'j runtime \<Rightarrow> jsstring \<Rightarrow> state \<Rightarrow> (state \<times> outcome) option" where
  "json_stage rt text st =
     (if isJSONArray rt text then
        (case parseJSONArray rt text of
           None \<Rightarrow> Some (st, Uncaught)
         | Some t \<Rightarrow>
             Some (switchToTable 0 (st\<lparr>tables := [t]\<rparr>),
                   Toast (str ''Loaded JSON data: '' @ nat_to_string (length (table.data t)) @
                          str '' rows'')))
      else None)"

definition fixed_stage :: "jsstring \<Rightarrow> state \<Rightarrow> (state \<times> outcome) option" where
  "fixed_stage text st =
     (if isFixedWidthTable text then
        (case parseFixedWidthTable text of
           None \<Rightarrow> None
         | Some t \<Rightarrow>
             Some (switchToTable 0 (st\<lparr>tables := [t]\<rparr>),
                   Toast (str ''Loaded fixed-width table: '' @
                          nat_to_string (length (table.data t)) @ str '' rows'')))
      else None)"

text \<open>
  What \<open>formatFromText\<close> reads from the page: the text area, the delimiter selector
  and the check box.
\<close>

record inputs =
  pasteInput :: jsstring
  delimiterSelect :: jsstring
  firstRowHeader :: bool

text \<open>
The delimiter of the fallback: \<open>'auto'\<close> asks the detector, \<open>'\\t'\<close> is the tab.
\<close>

definition chosen_delimiter :: "inputs \<Rightarrow> jsstring \<Rightarrow> jsstring" where
  "chosen_delimiter inp text =
     (if delimiterSelect inp = str ''auto'' then detectDelimiter text
      else if delimiterSelect inp = [0x5C, 0x74] then [0x09]
      else delimiterSelect inp)"

definition csv_fallback :: "inputs \<Rightarrow> jsstring \<Rightarrow> state \<Rightarrow> state \<times> outcome" where
  "csv_fallback inp text st =
     (let rws = parseCSV text (chosen_delimiter inp text)
      in processData (firstRowHeader inp) rws (st\<lparr>tables := []\<rparr>))"

definition formatFromText :: "'j runtime \<Rightarrow> inputs \<Rightarrow> state \<Rightarrow> state \<times> outcome" where
  "formatFromText rt inp st =
     (let text = trim (pasteInput inp) in
      if text = [] then (st, Toast (str ''Please enter some data first''))
      else
        (case box_stage text st of
           Some r \<Rightarrow> r
         | None \<Rightarrow>
        (case markdown_stage text st of
           Some r \<Rightarrow> r
         | None \<Rightarrow>
        (case json_stage rt text st of
           Some r \<Rightarrow> r
         | None \<Rightarrow>
        (case fixed_stage text st of
           Some r \<Rightarrow> r
         | None \<Rightarrow> csv_fallback inp text st)))))"

text \<open>
The two notifications of a failing action.
\<close>

definition failed :: "outcome \<Rightarrow> bool" where
  "failed out \<longleftrightarrow>
     out = Toast (str ''Please enter some data first'') \<or> out = Toast (str ''No data found'')"

section \<open>Properties of the delimited-text parser\<close>

lemma trim_Nil: "trim [] = []"
  by (simp add: trim_def trimStart_def trimEnd_def)

lemma push_row_flush:
  "(if cell \<noteq> [] \<or> length r > 0 then push_row rs r cell else rs) = push_row rs r cell"
  by (auto simp: push_row_def trim_Nil)

text \<open>
  The loop from index \<open>i\<close>, followed by the flush, is the machine started on the rest of
  the input: computation induction on the loop, one case per branch.
\<close>

lemma loop_machine:
  "i \<le> length tx \<Longrightarrow>
   (let s' = parseCSV_loop tx d i s in push_row (rows s') (currentRow s') (currentCell s')) =
   csv_machine d (if inQuotes s then Quoted else Unquoted) (rows s) (currentRow s) (currentCell s)
     (drop i tx)"
proof (induction tx d i s rule: parseCSV_loop.induct)
  case (1 tx delimiter i s)
  show ?case
  proof (cases "i < length tx")
    case False
    with "1.prems" have "i = length tx" by simp
    then show ?thesis by (subst parseCSV_loop.simps) simp
  next
    case True
    then have dr: "drop i tx = tx ! i # drop (Suc i) tx"
      by (simp add: Cons_nth_drop_Suc)
    show ?thesis
    proof (cases "Suc i < length tx")
      case False
      with True have e: "drop (Suc i) tx = []" by simp
      show ?thesis
        using True False "1.IH" "1.prems"
        apply (subst parseCSV_loop.simps)
        apply (simp add: dr e Let_def)
        done
    next
      case T2: True
      then have dr2: "\<And>a f. (case drop (Suc i) tx of [] \<Rightarrow> a | c' # cs' \<Rightarrow> f c' cs') =
          f (tx ! Suc i) (drop (Suc (Suc i)) tx)"
        by (simp add: Cons_nth_drop_Suc [symmetric])
      show ?thesis
        using True T2 "1.IH" "1.prems"
        apply (subst parseCSV_loop.simps)
        apply (auto simp add: dr dr2 Let_def)
        done
    qed
  qed
qed

lemma parseCSV_csv_machine: "parseCSV tx d = csv_machine d Unquoted [] [] [] tx"
proof -
  let ?s0 = "\<lparr>rows = [], currentRow = [], currentCell = [], inQuotes = False\<rparr>"
  have "parseCSV tx d =
        (let s' = parseCSV_loop tx d 0 ?s0
         in push_row (rows s') (currentRow s') (currentCell s'))"
    unfolding parseCSV_def Let_def by (rule push_row_flush)
  also have "\<dots> = csv_machine d Unquoted [] [] [] tx"
    using loop_machine [of 0 tx d ?s0] by simp
  finally show ?thesis .
qed

text \<open>
  C6. For every input text and every delimiter, \<open>parseCSV\<close> returns what the two-state
  machine of the specification returns: a quote while unquoted enters the quoted state,
  a doubled quote while quoted is one literal quote, a lone quote while quoted leaves the
  quoted state, the delimiter while unquoted ends the cell (trimmed), a line feed or a
  carriage return and line feed while unquoted end the row, kept only when one of its
  cells is not empty, a lone carriage return while unquoted is dropped, and the end of
  the input flushes the pending row under the same rule.
\<close>

theorem parseCSV_is_two_state_machine:
  "parseCSV tx d = csv_machine d Unquoted [] [] [] tx"
  by (rule parseCSV_csv_machine)

text \<open>
  An input with a quoted cell holding escaped quotes and the delimiter, a blank line, a
  lone carriage return and surrounding blanks: \<open>x,"a ""q"", b"\r\n\r\n 1 ,2\rz\<close>.
\<close>

theorem parseCSV_is_two_state_machine_witness:
  "parseCSV (str ''x,'' @ [DQUOTE] @ str ''a '' @ [DQUOTE, DQUOTE] @ str ''q'' @ [DQUOTE, DQUOTE] @
             str '', b'' @ [DQUOTE, CR, LF, CR, LF] @ str '' 1 ,2'' @ [CR] @ str ''z'') [COMMA] =
   [[str ''x'', str ''a '' @ [DQUOTE] @ str ''q'' @ [DQUOTE] @ str '', b''],
    [str ''1'', str ''2z'']]"
  using parseCSV_is_two_state_machine
    [of "str ''x,'' @ [DQUOTE] @ str ''a '' @ [DQUOTE, DQUOTE] @ str ''q'' @ [DQUOTE, DQUOTE] @
         str '', b'' @ [DQUOTE, CR, LF, CR, LF] @ str '' 1 ,2'' @ [CR] @ str ''z''" "[COMMA]"]
  by (simp add: push_row_def str_def trim_def trimStart_def trimEnd_def is_ws_def)

subsection \<open>Export and re-import\<close>

lemmas str_simps = str_def trim_def trimStart_def trimEnd_def is_ws_def

text \<open>An unquoted cell without special characters is read in one run.\<close>

lemma unquoted_run:
  "\<forall>c \<in> set cell. c \<noteq> DQUOTE \<and> c \<noteq> COMMA \<and> c \<noteq> LF \<and> c \<noteq> CR \<Longrightarrow>
   csv_machine [COMMA] Unquoted rs r acc (cell @ rest) =
   csv_machine [COMMA] Unquoted rs r (acc @ cell) rest"
  by (induction cell arbitrary: acc) auto

text \<open>Inside quotes, the doubled quotes of \<open>escape\<close> are read back up to the closing quote.\<close>

lemma quoted_run:
  "rest = [] \<or> hd rest \<noteq> DQUOTE \<Longrightarrow>
   csv_machine d Quoted rs r acc (double_quotes body @ DQUOTE # rest) =
   csv_machine d Unquoted rs r (acc @ body) rest"
proof (induction body arbitrary: acc)
  case Nil
  then show ?case by (cases rest) (auto simp: double_quotes_def)
next
  case (Cons c body)
  then show ?case by (auto simp: double_quotes_def)
qed

lemma escape_cell:
  assumes "rest = [] \<or> hd rest \<noteq> DQUOTE" and "cell_ok cell"
  shows "csv_machine [COMMA] Unquoted rs r [] (escape cell @ rest) =
         csv_machine [COMMA] Unquoted rs r cell rest"
proof (cases "quoted cell")
  case True
  then have "escape cell = DQUOTE # double_quotes cell @ [DQUOTE]"
    by (simp add: escape_def quoted_def)
  then show ?thesis using quoted_run [OF assms(1), of "[COMMA]" rs r "[]" cell] by simp
next
  case False
  with assms(2) have "\<forall>c \<in> set cell. c \<noteq> DQUOTE \<and> c \<noteq> COMMA \<and> c \<noteq> LF \<and> c \<noteq> CR"
    by (auto simp: cell_ok_def quoted_def)
  from unquoted_run [OF this, of rs r "[]" rest] False show ?thesis
    by (simp add: escape_def quoted_def)
qed

text \<open>One exported line: all cells but the last are pushed, the last one is pending.\<close>

lemma csv_row:
  assumes "cells \<noteq> []" and "\<forall>c \<in> set cells. cell_ok c" and "rest = [] \<or> hd rest = LF"
  shows "csv_machine [COMMA] Unquoted rs r [] (join [COMMA] (map escape cells) @ rest) =
         csv_machine [COMMA] Unquoted rs (r @ map trim (butlast cells)) (last cells) rest"
  using assms
proof (induction cells arbitrary: r)
  case Nil
  then show ?case by simp
next
  case (Cons c cells)
  show ?case
  proof (cases cells)
    case Nil
    with Cons.prems show ?thesis using escape_cell [of rest c rs r] by auto
  next
    case (Cons c' cells')
    have "csv_machine [COMMA] Unquoted rs r []
            (escape c @ COMMA # join [COMMA] (map escape cells) @ rest) =
          csv_machine [COMMA] Unquoted rs r c (COMMA # join [COMMA] (map escape cells) @ rest)"
      using Cons.prems by (intro escape_cell) auto
    also have "\<dots> = csv_machine [COMMA] Unquoted rs (r @ [trim c]) []
                      (join [COMMA] (map escape cells) @ rest)"
      by simp
    also have "\<dots> = csv_machine [COMMA] Unquoted rs
                      ((r @ [trim c]) @ map trim (butlast cells)) (last cells) rest"
      using Cons.prems Cons by (intro Cons.IH) auto
    finally show ?thesis using Cons by simp
  qed
qed

lemma push_row_ok:
  assumes "cells \<noteq> []" and "\<exists>c \<in> set cells. trim c \<noteq> []"
  shows "push_row rs (map trim (butlast cells)) (last cells) = rs @ [map trim cells]"
proof -
  from assms(1) have "map trim (butlast cells) @ [trim (last cells)] = map trim cells"
    by (metis append_butlast_last_id list.simps(8,9) map_append)
  with assms(2) show ?thesis by (auto simp: push_row_def Let_def)
qed

lemma row_ok_nonempty: "row_ok r \<Longrightarrow> r \<noteq> []"
  by (auto simp: row_ok_def)

lemma csv_lines:
  assumes "rws \<noteq> []" and "\<forall>r \<in> set rws. row_ok r"
  shows "csv_machine [COMMA] Unquoted rs [] []
           (join [LF] (map (\<lambda>row. join [COMMA] (map escape row)) rws)) =
         rs @ map (map trim) rws"
  using assms
proof (induction rws arbitrary: rs)
  case Nil
  then show ?case by simp
next
  case (Cons rw rws)
  then have ok: "row_ok rw" by simp
  then have ne: "rw \<noteq> []" by (rule row_ok_nonempty)
  from ok have cok: "\<forall>c \<in> set rw. cell_ok c" and tr: "\<exists>c \<in> set rw. trim c \<noteq> []"
    by (auto simp: row_ok_def)
  show ?case
  proof (cases rws)
    case Nil
    have "csv_machine [COMMA] Unquoted rs [] [] (join [COMMA] (map escape rw) @ []) =
          csv_machine [COMMA] Unquoted rs ([] @ map trim (butlast rw)) (last rw) []"
      using ne cok by (intro csv_row) auto
    then show ?thesis using Nil push_row_ok [OF ne tr] by simp
  next
    case (Cons rw' rws')
    let ?rest = "LF # join [LF] (map (\<lambda>row. join [COMMA] (map escape row)) rws)"
    have "csv_machine [COMMA] Unquoted rs [] [] (join [COMMA] (map escape rw) @ ?rest) =
          csv_machine [COMMA] Unquoted rs ([] @ map trim (butlast rw)) (last rw) ?rest"
      using ne cok by (intro csv_row) auto
    also have "\<dots> = csv_machine [COMMA] Unquoted (rs @ [map trim rw]) [] []
                      (join [LF] (map (\<lambda>row. join [COMMA] (map escape row)) rws))"
      using push_row_ok [OF ne tr] by simp
    also have "\<dots> = (rs @ [map trim rw]) @ map (map trim) rws"
      using Cons.prems Cons by (intro Cons.IH) auto
    finally show ?thesis using Cons by simp
  qed
qed

text \<open>
  C1, as stated, fails: the parser drops a row whose cells are all blank, so the data row
  \<open>[""]\<close> under the header \<open>["a"]\<close> is exported as \<open>"a\n"\<close> and does not come back; and
  \<open>escape\<close> leaves the cell \<open>"a\rb"\<close> unquoted, where the parser drops the carriage return.
\<close>

theorem toCsv_roundtrip_counterexample:
  "parseCSV (dataToCSV [str ''a''] [[[]]]) [COMMA] = [[str ''a'']] \<and>
   parseCSV (dataToCSV [str ''a''] [[[]]]) [COMMA] \<noteq> map (map trim) ([str ''a''] # [[[]]]) \<and>
   parseCSV (dataToCSV [[0x61, CR, 0x62]] []) [COMMA] = [[[0x61, 0x62]]] \<and>
   parseCSV (dataToCSV [[0x61, CR, 0x62]] []) [COMMA] \<noteq> map (map trim) ([[0x61, CR, 0x62]] # [])"
  by (simp add: parseCSV_csv_machine dataToCSV_def escape_def push_row_def str_simps)

text \<open>
  C1, amended. When every row (the header row and each data row) has a cell that is not
  blank, and every cell with a carriage return also has a comma, a double quote or a line
  feed (so that \<open>escape\<close> quotes it), parsing the output of \<open>dataToCSV\<close> with the comma as
  delimiter gives back the header row followed by the data rows, each cell trimmed.
\<close>

theorem toCsv_roundtrip:
  assumes "\<forall>r \<in> set (hdrs # rws). row_ok r"
  shows "parseCSV (dataToCSV hdrs rws) [COMMA] = map (map trim) (hdrs # rws)"
proof -
  have "parseCSV (dataToCSV hdrs rws) [COMMA] =
        csv_machine [COMMA] Unquoted [] [] []
          (join [LF] (map (\<lambda>row. join [COMMA] (map escape row)) (hdrs # rws)))"
    by (simp add: parseCSV_csv_machine dataToCSV_def Let_def)
  also have "\<dots> = [] @ map (map trim) (hdrs # rws)"
    using assms by (intro csv_lines) auto
  finally show ?thesis by simp
qed

theorem toCsv_roundtrip_witness:
  "row_ok [str ''name'', str ''note''] \<and> row_ok [str ''a,b'', str '' x ''] \<and>
   row_ok [[0x73, DQUOTE, 0x74, DQUOTE], []] \<and>
   parseCSV (dataToCSV [str ''name'', str ''note'']
               [[str ''a,b'', str '' x ''], [[0x73, DQUOTE, 0x74, DQUOTE], []]]) [COMMA] =
   [[str ''name'', str ''note''], [str ''a,b'', str ''x''], [[0x73, DQUOTE, 0x74, DQUOTE], []]]"
proof -
  have ok: "row_ok [str ''name'', str ''note''] \<and> row_ok [str ''a,b'', str '' x ''] \<and>
            row_ok [[0x73, DQUOTE, 0x74, DQUOTE], []]"
    by (simp add: row_ok_def cell_ok_def quoted_def str_simps)
  then have "\<forall>r \<in> set ([str ''name'', str ''note''] #
               [[str ''a,b'', str '' x ''], [[0x73, DQUOTE, 0x74, DQUOTE], []]]). row_ok r"
    by simp
  from toCsv_roundtrip [OF this] ok show ?thesis
    by (simp add: str_simps)
qed

section \<open>Properties of the reconciler\<close>

subsection \<open>\<open>indexOf\<close>\<close>

lemma indexOf_ge: "- 1 \<le> indexOf xs x"
  by (induction xs) (auto simp: Let_def)

lemma indexOf_absent: "indexOf xs x = - 1 \<longleftrightarrow> x \<notin> set xs"
proof (induction xs)
  case Nil
  show ?case by simp
next
  case (Cons y ys)
  from indexOf_ge [of ys x] have "indexOf ys x + 1 \<noteq> - 1" by arith
  with Cons show ?case by (simp add: Let_def)
qed

lemma indexOf_nth: "indexOf xs x = int p \<Longrightarrow> p < length xs \<and> xs ! p = x"
proof (induction xs arbitrary: p)
  case Nil
  then show ?case by simp
next
  case (Cons y ys)
  show ?case
  proof (cases "y = x")
    case True
    with Cons.prems show ?thesis by simp
  next
    case False
    with Cons.prems have k: "indexOf ys x \<noteq> - 1" and e: "indexOf ys x + 1 = int p"
      by (auto simp: Let_def split: if_splits)
    from indexOf_ge [of ys x] k have "0 \<le> indexOf ys x" by arith
    with e obtain q where q: "p = Suc q" "indexOf ys x = int q"
      by (cases p) auto
    from Cons.IH [OF q(2)] q(1) show ?thesis by simp
  qed
qed

lemma indexOf_present: "x \<in> set xs \<Longrightarrow> \<exists>p. indexOf xs x = int p"
proof -
  assume "x \<in> set xs"
  with indexOf_absent [of xs x] indexOf_ge [of xs x] have "0 \<le> indexOf xs x" by arith
  then show ?thesis by (rule zero_le_imp_eq_int [THEN exE]) blast
qed

subsection \<open>\<open>padRowToHeaders\<close>\<close>

lemma length_pad_step: "length (pad_step common rw res hi) = length res"
  by (cases hi) (simp add: pad_step_def Let_def)

lemma length_pad_fold: "length (foldl (pad_step common rw) res his) = length res"
  by (induction his arbitrary: res) (simp_all add: length_pad_step)

lemma zip_snoc: "zip (ths @ [h]) [0..<length (ths @ [h])] = zip ths [0..<length ths] @ [(h, length ths)]"
  by simp

lemma pad_fold_snoc:
  "foldl (pad_step common rw) res (zip (ths @ [h]) [0..<length (ths @ [h])]) =
   pad_step common rw (foldl (pad_step common rw) res (zip ths [0..<length ths])) (h, length ths)"
  unfolding zip_snoc by simp

text \<open>
  The loop over the table's headers, by induction from the last header: a position that
  no header of the table aims at stays empty, and a position holds the cell of the last
  header that aims at it.
\<close>

lemma pad_empty:
  "p < length res \<Longrightarrow> res ! p = [] \<Longrightarrow>
   \<forall>i. i < length ths \<and> i < length rw \<longrightarrow> indexOf common (ths ! i) \<noteq> int p \<Longrightarrow>
   foldl (pad_step common rw) res (zip ths [0..<length ths]) ! p = []"
proof (induction ths rule: rev_induct)
  case Nil
  then show ?case by simp
next
  case (snoc h ths)
  let ?r = "foldl (pad_step common rw) res (zip ths [0..<length ths])"
  have "\<forall>i. i < length ths \<and> i < length rw \<longrightarrow> indexOf common (ths ! i) \<noteq> int p"
  proof (intro allI impI)
    fix i assume i: "i < length ths \<and> i < length rw"
    with snoc.prems(3) have "indexOf common ((ths @ [h]) ! i) \<noteq> int p" by simp
    with i show "indexOf common (ths ! i) \<noteq> int p" by (simp add: nth_append)
  qed
  from snoc.IH [OF snoc.prems(1,2) this] have r: "?r ! p = []" .
  have "length ths < length rw \<longrightarrow> indexOf common h \<noteq> int p"
    using snoc.prems(3) [rule_format, of "length ths"] by simp
  then have "pad_step common rw ?r (h, length ths) ! p = ?r ! p"
    using indexOf_ge [of common h] by (auto simp: pad_step_def Let_def)
  with r show ?case by (simp only: pad_fold_snoc)
qed

lemma pad_last_writer:
  "p < length res \<Longrightarrow> i < length ths \<Longrightarrow> i < length rw \<Longrightarrow> indexOf common (ths ! i) = int p \<Longrightarrow>
   \<forall>j. i < j \<and> j < length ths \<and> j < length rw \<longrightarrow> indexOf common (ths ! j) \<noteq> int p \<Longrightarrow>
   foldl (pad_step common rw) res (zip ths [0..<length ths]) ! p = rw ! i"
proof (induction ths rule: rev_induct)
  case Nil
  then show ?case by simp
next
  case (snoc h ths)
  let ?r = "foldl (pad_step common rw) res (zip ths [0..<length ths])"
  have len: "length ?r = length res" by (rule length_pad_fold)
  show ?case
  proof (cases "i = length ths")
    case True
    with snoc.prems have "indexOf common h = int p" "length ths < length rw" by auto
    with snoc.prems(1) len True have "pad_step common rw ?r (h, length ths) ! p = rw ! i"
      by (simp add: pad_step_def Let_def)
    then show ?thesis by (simp only: pad_fold_snoc)
  next
    case False
    with snoc.prems(2) have i: "i < length ths" by simp
    with snoc.prems(4) have ip: "indexOf common (ths ! i) = int p" by (simp add: nth_append)
    have later: "\<forall>j. i < j \<and> j < length ths \<and> j < length rw \<longrightarrow> indexOf common (ths ! j) \<noteq> int p"
    proof (intro allI impI)
      fix j assume j: "i < j \<and> j < length ths \<and> j < length rw"
      with snoc.prems(5) have "indexOf common ((ths @ [h]) ! j) \<noteq> int p" by simp
      with j show "indexOf common (ths ! j) \<noteq> int p" by (simp add: nth_append)
    qed
    from snoc.IH [OF snoc.prems(1) i snoc.prems(3) ip later] have r: "?r ! p = rw ! i" .
    have "length ths < length rw \<longrightarrow> indexOf common h \<noteq> int p"
      using snoc.prems(5) [rule_format, of "length ths"] i by simp
    then have "pad_step common rw ?r (h, length ths) ! p = ?r ! p"
      using indexOf_ge [of common h] by (auto simp: pad_step_def Let_def)
    with r show ?thesis by (simp only: pad_fold_snoc)
  qed
qed

text \<open>
  C3, amended. A source cell whose index is within the row and whose header name occurs
  in the common header list is found at the position of the first occurrence of that
  name in the common list, provided no later cell of the row has the same header name;
  and every position of the result at which no such cell aims holds the empty string.
\<close>

theorem padRowToHeaders_places_cells:
  "(\<forall>i. i < length ths \<and> i < length rw \<and> ths ! i \<in> set (getCommonHeaders tbls) \<and>
        (\<forall>j. i < j \<and> j < length ths \<and> j < length rw \<longrightarrow> ths ! j \<noteq> ths ! i) \<longrightarrow>
        padRowToHeaders tbls rw ths ! nat (indexOf (getCommonHeaders tbls) (ths ! i)) = rw ! i) \<and>
   (\<forall>p. p < length (getCommonHeaders tbls) \<and>
        (\<forall>i. i < length ths \<and> i < length rw \<longrightarrow>
             indexOf (getCommonHeaders tbls) (ths ! i) \<noteq> int p) \<longrightarrow>
        padRowToHeaders tbls rw ths ! p = [])"
proof (intro conjI allI impI)
  let ?common = "getCommonHeaders tbls"
  let ?res = "replicate (length ?common) ([] :: jsstring)"
  fix i
  assume a: "i < length ths \<and> i < length rw \<and> ths ! i \<in> set ?common \<and>
             (\<forall>j. i < j \<and> j < length ths \<and> j < length rw \<longrightarrow> ths ! j \<noteq> ths ! i)"
  note i1 = a [THEN conjunct1]
  note i2 = a [THEN conjunct2, THEN conjunct1]
  note i3 = a [THEN conjunct2, THEN conjunct2, THEN conjunct1]
  note i4 = a [THEN conjunct2, THEN conjunct2, THEN conjunct2]
  from indexOf_present [OF i3] obtain p where p: "indexOf ?common (ths ! i) = int p" ..
  note pn = indexOf_nth [OF p]
  have later: "\<forall>j. i < j \<and> j < length ths \<and> j < length rw \<longrightarrow> indexOf ?common (ths ! j) \<noteq> int p"
  proof (intro allI impI notI)
    fix j assume j: "i < j \<and> j < length ths \<and> j < length rw" and e: "indexOf ?common (ths ! j) = int p"
    from indexOf_nth [OF e] pn have "ths ! j = ths ! i" by simp
    moreover from i4 [rule_format, OF j] have "ths ! j \<noteq> ths ! i" .
    ultimately show False by (rule notE [rotated])
  qed
  have pl: "p < length ?res" using pn by simp
  have "foldl (pad_step ?common rw) ?res (zip ths [0..<length ths]) ! p = rw ! i"
    by (rule pad_last_writer [OF pl i1 i2 p later])
  then show "padRowToHeaders tbls rw ths ! nat (indexOf ?common (ths ! i)) = rw ! i"
    unfolding padRowToHeaders_def Let_def p by simp
next
  let ?common = "getCommonHeaders tbls"
  let ?res = "replicate (length ?common) ([] :: jsstring)"
  fix p
  assume a: "p < length ?common \<and>
             (\<forall>i. i < length ths \<and> i < length rw \<longrightarrow> indexOf ?common (ths ! i) \<noteq> int p)"
  have pl: "p < length ?res" using a [THEN conjunct1] by simp
  then have pe: "?res ! p = []" by simp
  have "foldl (pad_step ?common rw) ?res (zip ths [0..<length ths]) ! p = []"
    by (rule pad_empty [OF pl pe a [THEN conjunct2]])
  then show "padRowToHeaders tbls rw ths ! p = []"
    unfolding padRowToHeaders_def Let_def .
qed

lemmas pad_eval = padRowToHeaders_def getCommonHeaders_def allSame_def collect_header_def
  pad_step_def Let_def str_def

text \<open>
  C3, as stated, fails when the table repeats a header name: with the single table of
  headers \<open>["a", "a"]\<close>, the common list is \<open>["a", "a"]\<close>, both cells of the row
  \<open>["1", "2"]\<close> aim at position 0, the first occurrence of \<open>"a"\<close>, and the value
  \<open>"1"\<close> is lost.
\<close>

theorem padRowToHeaders_counterexample:
  "getCommonHeaders [\<lparr>name = str ''T'', headers = [str ''a'', str ''a''], data = [[str ''1'', str ''2'']]\<rparr>]
     = [str ''a'', str ''a''] \<and>
   indexOf [str ''a'', str ''a''] (str ''a'') = 0 \<and>
   padRowToHeaders [\<lparr>name = str ''T'', headers = [str ''a'', str ''a''], data = [[str ''1'', str ''2'']]\<rparr>]
     [str ''1'', str ''2''] [str ''a'', str ''a''] = [str ''2'', []]"
  by (simp add: pad_eval)

theorem padRowToHeaders_places_cells_witness:
  "getCommonHeaders [\<lparr>name = str ''T1'', headers = [str ''a'', str ''b''], data = []\<rparr>,
                     \<lparr>name = str ''T2'', headers = [str ''b'', str ''c''], data = [[str ''1'', str ''2'']]\<rparr>]
     = [str ''a'', str ''b'', str ''c''] \<and>
   padRowToHeaders [\<lparr>name = str ''T1'', headers = [str ''a'', str ''b''], data = []\<rparr>,
                     \<lparr>name = str ''T2'', headers = [str ''b'', str ''c''], data = [[str ''1'', str ''2'']]\<rparr>]
     [str ''1'', str ''2''] [str ''b'', str ''c''] ! 1 = str ''1'' \<and>
   padRowToHeaders [\<lparr>name = str ''T1'', headers = [str ''a'', str ''b''], data = []\<rparr>,
                     \<lparr>name = str ''T2'', headers = [str ''b'', str ''c''], data = [[str ''1'', str ''2'']]\<rparr>]
     [str ''1'', str ''2''] [str ''b'', str ''c''] ! 0 = []"
proof -
  let ?T = "[\<lparr>name = str ''T1'', headers = [str ''a'', str ''b''], data = []\<rparr>,
             \<lparr>name = str ''T2'', headers = [str ''b'', str ''c''], data = [[str ''1'', str ''2'']]\<rparr>]"
  let ?ths = "[str ''b'', str ''c'']"
  let ?rw = "[str ''1'', str ''2'']"
  have c: "getCommonHeaders ?T = [str ''a'', str ''b'', str ''c'']"
    by (simp add: pad_eval)
  have ix: "indexOf (getCommonHeaders ?T) (?ths ! 0) = 1" "indexOf (getCommonHeaders ?T) (?ths ! 1) = 2"
    unfolding c by (simp_all add: str_def)
  have h1: "0 < length ?ths \<and> 0 < length ?rw \<and> ?ths ! 0 \<in> set (getCommonHeaders ?T) \<and>
        (\<forall>j. 0 < j \<and> j < length ?ths \<and> j < length ?rw \<longrightarrow> ?ths ! j \<noteq> ?ths ! 0)"
  proof (intro conjI allI impI)
    fix j assume "0 < j \<and> j < length ?ths \<and> j < length ?rw"
    then have "j = 1" by simp
    then show "?ths ! j \<noteq> ?ths ! 0" by (simp add: str_def)
  qed (auto simp: c)
  have h2: "0 < length (getCommonHeaders ?T) \<and>
        (\<forall>i. i < length ?ths \<and> i < length ?rw \<longrightarrow> indexOf (getCommonHeaders ?T) (?ths ! i) \<noteq> int 0)"
  proof (intro conjI allI impI)
    fix i assume "i < length ?ths \<and> i < length ?rw"
    then have "i = 0 \<or> i = 1" by auto
    with ix show "indexOf (getCommonHeaders ?T) (?ths ! i) \<noteq> int 0" by auto
  qed (simp add: c)
  note t = padRowToHeaders_places_cells [of ?ths ?rw ?T]
  from t [THEN conjunct1, rule_format, OF h1] ix(1)
  have 1: "padRowToHeaders ?T ?rw ?ths ! 1 = str ''1''"
    by simp
  from t [THEN conjunct2, rule_format, OF h2]
  have 2: "padRowToHeaders ?T ?rw ?ths ! 0 = []" .
  from c 1 2 show ?thesis by simp
qed

subsection \<open>\<open>getCommonHeaders\<close>\<close>

lemma foldl_nested:
  "foldl (\<lambda>acc t. foldl f acc (g t)) a ts = foldl f a (concat (map g ts))"
  by (induction ts arbitrary: a) simp_all

lemma collect_first_seen:
  "foldl collect_header ({}, []) xs = (set xs, rev (remdups (rev xs)))"
  by (induction xs rule: rev_induct) (auto simp: collect_header_def)

lemma indexOf_append_in: "y \<in> set xs \<Longrightarrow> indexOf (xs @ zs) y = indexOf xs y"
proof (induction xs)
  case Nil
  then show ?case by simp
next
  case (Cons x xs)
  then show ?case by (cases "x = y") (simp_all add: Let_def)
qed

lemma indexOf_append_notin: "y \<notin> set xs \<Longrightarrow> indexOf (xs @ [y]) y = int (length xs)"
  by (induction xs) (auto simp: Let_def)

lemma indexOf_less_length: "y \<in> set xs \<Longrightarrow> indexOf xs y < int (length xs)"
  using indexOf_present [of y xs] indexOf_nth [of xs y] by auto

lemma first_seen_order:
  "i < j \<Longrightarrow> j < length (rev (remdups (rev xs))) \<Longrightarrow>
   indexOf xs (rev (remdups (rev xs)) ! i) < indexOf xs (rev (remdups (rev xs)) ! j)"
proof (induction xs rule: rev_induct)
  case Nil
  then show ?case by simp
next
  case (snoc x xs)
  let ?r = "rev (remdups (rev xs))"
  have mem: "\<And>k. k < length ?r \<Longrightarrow> ?r ! k \<in> set xs"
    by (metis nth_mem set_remdups set_rev)
  show ?case
  proof (cases "x \<in> set xs")
    case True
    then have r: "rev (remdups (rev (xs @ [x]))) = ?r" by simp
    with snoc.prems have j: "j < length ?r" by simp
    with snoc.prems(1) have i: "i < length ?r" by simp
    from snoc.IH [OF snoc.prems(1) j] mem [OF i] mem [OF j] show ?thesis
      unfolding r by (simp add: indexOf_append_in)
  next
    case False
    then have r: "rev (remdups (rev (xs @ [x]))) = ?r @ [x]" by simp
    show ?thesis
    proof (cases "j < length ?r")
      case True
      with snoc.prems(1) have i: "i < length ?r" by simp
      from snoc.IH [OF snoc.prems(1) True] mem [OF i] mem [OF True] i True show ?thesis
        unfolding r by (simp add: indexOf_append_in nth_append)
    next
      case F: False
      from snoc.prems(2) have "j < length (?r @ [x])" unfolding r .
      with F have j: "j = length ?r" by simp
      with snoc.prems(1) have i: "i < length ?r" by simp
      from indexOf_less_length [OF mem [OF i]] mem [OF i] i j False show ?thesis
        unfolding r by (simp add: indexOf_append_in indexOf_append_notin nth_append)
    qed
  qed
qed

lemma ball_upt: "(\<forall>i \<in> {0..<n::nat}. P i) = (\<forall>i<n. P i)"
  by auto

lemma allSame_iff:
  "allSame tbls fh \<longleftrightarrow>
   (\<forall>t \<in> set tbls. length (table.headers t) = length fh \<and>
      (\<forall>i < length (table.headers t). table.headers t ! i = fh ! i))"
  unfolding allSame_def list_all_iff set_upt ball_upt ..

lemma union_first_seen:
  "snd (foldl (\<lambda>acc t. foldl collect_header acc (table.headers t)) ({}, []) tbls) =
   rev (remdups (rev (concat (map table.headers tbls))))"
  by (simp add: foldl_nested collect_first_seen)

text \<open>
  C4. For a non-empty list of tables: when every table's header list has the length of
  the first table's and the same value at each position, \<open>getCommonHeaders\<close> returns
  the first table's header list itself; otherwise it returns the headers of all tables
  without duplicates, in the order of their first occurrence.
\<close>

theorem getCommonHeaders_spec:
  assumes "tbls \<noteq> []"
  shows "((\<forall>t \<in> set tbls. length (table.headers t) = length (table.headers (hd tbls)) \<and>
            (\<forall>i < length (table.headers t). table.headers t ! i = table.headers (hd tbls) ! i))
          \<longrightarrow> getCommonHeaders tbls = table.headers (hd tbls)) \<and>
         (\<not> (\<forall>t \<in> set tbls. length (table.headers t) = length (table.headers (hd tbls)) \<and>
            (\<forall>i < length (table.headers t). table.headers t ! i = table.headers (hd tbls) ! i))
          \<longrightarrow> distinct (getCommonHeaders tbls) \<and>
              set (getCommonHeaders tbls) = set (concat (map table.headers tbls)) \<and>
              (\<forall>i j. i < j \<and> j < length (getCommonHeaders tbls) \<longrightarrow>
                 indexOf (concat (map table.headers tbls)) (getCommonHeaders tbls ! i) <
                 indexOf (concat (map table.headers tbls)) (getCommonHeaders tbls ! j)))"
proof (rule conjI; rule impI)
  from assms have hd: "tbls ! 0 = hd tbls" by (simp add: hd_conv_nth)
  assume "\<forall>t \<in> set tbls. length (table.headers t) = length (table.headers (hd tbls)) \<and>
            (\<forall>i < length (table.headers t). table.headers t ! i = table.headers (hd tbls) ! i)"
  then have "allSame tbls (table.headers (hd tbls))" unfolding allSame_iff .
  with assms hd show "getCommonHeaders tbls = table.headers (hd tbls)"
    by (simp add: getCommonHeaders_def Let_def)
next
  let ?all = "concat (map table.headers tbls)"
  from assms have hd: "tbls ! 0 = hd tbls" by (simp add: hd_conv_nth)
  assume "\<not> (\<forall>t \<in> set tbls. length (table.headers t) = length (table.headers (hd tbls)) \<and>
            (\<forall>i < length (table.headers t). table.headers t ! i = table.headers (hd tbls) ! i))"
  then have "\<not> allSame tbls (table.headers (hd tbls))" unfolding allSame_iff .
  with assms hd have g: "getCommonHeaders tbls = rev (remdups (rev ?all))"
    by (simp add: getCommonHeaders_def Let_def union_first_seen)
  have 1: "distinct (rev (remdups (rev ?all)))" by simp
  have 2: "set (rev (remdups (rev ?all))) = set ?all" by simp
  have 3: "\<forall>i j. i < j \<and> j < length (rev (remdups (rev ?all))) \<longrightarrow>
        indexOf ?all (rev (remdups (rev ?all)) ! i) < indexOf ?all (rev (remdups (rev ?all)) ! j)"
  proof (intro allI impI)
    fix i j assume ij: "i < j \<and> j < length (rev (remdups (rev ?all)))"
    show "indexOf ?all (rev (remdups (rev ?all)) ! i) < indexOf ?all (rev (remdups (rev ?all)) ! j)"
      by (rule first_seen_order [OF ij [THEN conjunct1] ij [THEN conjunct2]])
  qed
  show "distinct (getCommonHeaders tbls) \<and> set (getCommonHeaders tbls) = set ?all \<and>
        (\<forall>i j. i < j \<and> j < length (getCommonHeaders tbls) \<longrightarrow>
           indexOf ?all (getCommonHeaders tbls ! i) < indexOf ?all (getCommonHeaders tbls ! j))"
    unfolding g using 1 2 3 by (intro conjI)
qed

theorem getCommonHeaders_spec_witness:
  "getCommonHeaders [\<lparr>name = str ''T1'', headers = [str ''a'', str ''b''], data = []\<rparr>,
                     \<lparr>name = str ''T2'', headers = [str ''a'', str ''b''], data = [[str ''1'', str ''2'']]\<rparr>]
     = [str ''a'', str ''b''] \<and>
   distinct (getCommonHeaders [\<lparr>name = str ''T1'', headers = [str ''a'', str ''b''], data = []\<rparr>,
                     \<lparr>name = str ''T2'', headers = [str ''b'', str ''c''], data = []\<rparr>]) \<and>
   set (getCommonHeaders [\<lparr>name = str ''T1'', headers = [str ''a'', str ''b''], data = []\<rparr>,
                     \<lparr>name = str ''T2'', headers = [str ''b'', str ''c''], data = []\<rparr>])
     = {str ''a'', str ''b'', str ''c''}"
proof -
  let ?S = "[\<lparr>name = str ''T1'', headers = [str ''a'', str ''b''], data = []\<rparr>,
             \<lparr>name = str ''T2'', headers = [str ''a'', str ''b''], data = [[str ''1'', str ''2'']]\<rparr>]"
  let ?D = "[\<lparr>name = str ''T1'', headers = [str ''a'', str ''b''], data = []\<rparr>,
             \<lparr>name = str ''T2'', headers = [str ''b'', str ''c''], data = []\<rparr>]"
  have s: "?S \<noteq> []" and d: "?D \<noteq> []" by simp_all
  have same: "\<forall>t \<in> set ?S. length (table.headers t) = length (table.headers (hd ?S)) \<and>
            (\<forall>i < length (table.headers t). table.headers t ! i = table.headers (hd ?S) ! i)"
    by simp
  have differ: "\<not> (\<forall>t \<in> set ?D. length (table.headers t) = length (table.headers (hd ?D)) \<and>
            (\<forall>i < length (table.headers t). table.headers t ! i = table.headers (hd ?D) ! i))"
    apply (simp add: str_def)
    apply (rule exI [of _ 0])
    apply simp
    done
  from getCommonHeaders_spec [OF s, THEN conjunct1, THEN mp, OF same]
  have 1: "getCommonHeaders ?S = [str ''a'', str ''b'']" by simp
  from getCommonHeaders_spec [OF d, THEN conjunct2, THEN mp, OF differ]
  have 2: "distinct (getCommonHeaders ?D) \<and> set (getCommonHeaders ?D) = {str ''a'', str ''b'', str ''c''}"
    by auto
  from 1 2 show ?thesis by (intro conjI) simp_all
qed

text \<open>
  C10. The row that \<open>padRowToHeaders\<close> returns has the length of the common header
  list, whatever the lengths of the input row and of its table's header list.
\<close>

theorem padRowToHeaders_length:
  "length (padRowToHeaders tbls rw ths) = length (getCommonHeaders tbls)"
  by (simp add: padRowToHeaders_def Let_def length_pad_fold)

section \<open>Properties of sorting\<close>

text \<open>
  C8. \<open>sortTable\<close> on column \<open>i\<close> makes \<open>i\<close> the sort column. When \<open>i\<close> was not the sort
  column the direction becomes ascending; when it was, the direction is toggled, so
  that three applications in a row give ascending, descending, ascending; and a sort on
  another column afterwards gives ascending again.
\<close>

theorem sortTable_direction:
  "sortColumn (sortTable i st) = i \<and>
   (sortColumn st \<noteq> i \<longrightarrow> sortDirection (sortTable i st) = Asc) \<and>
   (sortColumn st = i \<longrightarrow>
      sortDirection (sortTable i st) = (if sortDirection st = Asc then Desc else Asc)) \<and>
   (sortColumn st \<noteq> i \<longrightarrow>
      sortDirection (sortTable i (sortTable i st)) = Desc \<and>
      sortDirection (sortTable i (sortTable i (sortTable i st))) = Asc) \<and>
   (j \<noteq> i \<longrightarrow> sortDirection (sortTable j (sortTable i st)) = Asc)"
  by (simp add: sortTable_def Let_def)

theorem sortTable_direction_witness:
  "sortDirection (sortTable 0 \<lparr>data = [], headers = [], sortColumn = - 1, sortDirection = Asc,
      filteredData = [], tables = [], currentTableIndex = 0\<rparr>) = Asc \<and>
   sortDirection (sortTable 0 (sortTable 0 \<lparr>data = [], headers = [], sortColumn = - 1,
      sortDirection = Asc, filteredData = [], tables = [], currentTableIndex = 0\<rparr>)) = Desc \<and>
   sortDirection (sortTable 0 (sortTable 0 (sortTable 0 \<lparr>data = [], headers = [],
      sortColumn = - 1, sortDirection = Asc, filteredData = [], tables = [],
      currentTableIndex = 0\<rparr>))) = Asc \<and>
   sortDirection (sortTable 1 (sortTable 0 (sortTable 0 \<lparr>data = [], headers = [],
      sortColumn = - 1, sortDirection = Asc, filteredData = [], tables = [],
      currentTableIndex = 0\<rparr>))) = Asc"
proof -
  let ?st = "\<lparr>data = [], headers = [], sortColumn = - 1, sortDirection = Asc,
      filteredData = [], tables = [], currentTableIndex = 0\<rparr>"
  have c: "sortColumn ?st \<noteq> 0" by simp
  note t = sortTable_direction [of 0 ?st 1]
  from t c have "sortDirection (sortTable 0 ?st) = Asc" by blast
  moreover from t c have "sortDirection (sortTable 0 (sortTable 0 ?st)) = Desc"
    and "sortDirection (sortTable 0 (sortTable 0 (sortTable 0 ?st))) = Asc" by blast+
  moreover from sortTable_direction [of 0 "sortTable 0 ?st" 1]
  have "sortDirection (sortTable 1 (sortTable 0 (sortTable 0 ?st))) = Asc" by simp
  ultimately show ?thesis by (intro conjI)
qed

lemmas parseFloat_eval = parseFloat_def trimStart_def is_ws_def is_digit_def digits_value_def
  exponent_def str_def Let_def

lemma parseFloat_examples:
  "parseFloat (str ''10'') = Num 10" "parseFloat (str ''2'') = Num 2"
  "parseFloat (str ''9'') = Num 9" "parseFloat (str ''abc'') = NaN"
  by (simp_all add: parseFloat_eval)

text \<open>The value is that of the longest prefix that is a decimal literal.\<close>

lemma parseFloat_prefixes:
  "parseFloat (str '' -1.5e2x'') = Num (- 150)"
  "parseFloat (str ''.5'') = Num (1/2)"
  "parseFloat (str ''3abc'') = Num 3"
  "parseFloat (str ''1e-2'') = Num (1/100)"
  "parseFloat (str ''-Infinity'') = NegInfinity"
  "parseFloat (str ''.'') = NaN"
  "parseFloat (str ''1.e1'') = Num 10"
  "parseFloat (str ''1e'') = Num 1"
  by (simp_all add: parseFloat_eval)

lemma sortTable_filteredData:
  "filteredData (sortTable c st) =
   js_sort (compare_rows c (sortDirection (sortTable c st))) (filteredData st)"
  by (simp add: sortTable_def Let_def)

lemma map3:
  "map f xs = [a, b, c] \<Longrightarrow> \<exists>x y z. xs = [x, y, z] \<and> f x = a \<and> f y = b \<and> f z = c"
  by (auto simp: map_eq_Cons_conv)

lemma sort_10_2_9:
  assumes "cell_at x c = str ''10''" "cell_at y c = str ''2''" "cell_at z c = str ''9''"
  shows "js_sort (compare_rows c Asc) [x, y, z] = [y, z, x]"
  using assms parseFloat_examples
  by (simp add: js_sort_def compare_rows_def Let_def)

lemma sort_10_9_abc:
  assumes "cell_at x c = str ''10''" "cell_at y c = str ''9''" "cell_at z c = str ''abc''"
  shows "js_sort (compare_rows c Asc) [x, y, z] = [y, x, z]"
proof -
  have "str_less (toLowerCase (str ''10'')) (toLowerCase (str ''abc''))"
       "str_less (toLowerCase (str ''9'')) (toLowerCase (str ''abc''))"
    by (simp_all add: toLowerCase_def str_def)
  with assms parseFloat_examples show ?thesis
    by (simp add: js_sort_def compare_rows_def Let_def)
qed

text \<open>
  C7. In an ascending sort, two cells that both parse as numbers are compared by the
  difference of their values; whenever the sort of a column is ascending and its cells
  are \<open>"10", "2", "9"\<close>, they come out as \<open>"2", "9", "10"\<close>; and the cells
  \<open>"10", "9", "abc"\<close> come out as \<open>"9", "10", "abc"\<close>: the two numbers in numeric
  order, the text compared with them as strings.
\<close>

theorem sortTable_numeric_compare:
  "(parseFloat (cell_at a c) \<noteq> NaN \<and> parseFloat (cell_at b c) \<noteq> NaN \<longrightarrow>
      compare_rows c Asc a b = num_minus (parseFloat (cell_at a c)) (parseFloat (cell_at b c))) \<and>
   (sortDirection (sortTable c st) = Asc \<and>
    map (\<lambda>r. cell_at r c) (filteredData st) = [str ''10'', str ''2'', str ''9''] \<longrightarrow>
      map (\<lambda>r. cell_at r c) (filteredData (sortTable c st)) = [str ''2'', str ''9'', str ''10'']) \<and>
   (sortDirection (sortTable c st) = Asc \<and>
    map (\<lambda>r. cell_at r c) (filteredData st) = [str ''10'', str ''9'', str ''abc''] \<longrightarrow>
      map (\<lambda>r. cell_at r c) (filteredData (sortTable c st)) = [str ''9'', str ''10'', str ''abc''])"
proof (intro conjI impI)
  assume "parseFloat (cell_at a c) \<noteq> NaN \<and> parseFloat (cell_at b c) \<noteq> NaN"
  then show "compare_rows c Asc a b = num_minus (parseFloat (cell_at a c)) (parseFloat (cell_at b c))"
    by (simp add: compare_rows_def Let_def)
next
  assume h: "sortDirection (sortTable c st) = Asc \<and>
    map (\<lambda>r. cell_at r c) (filteredData st) = [str ''10'', str ''2'', str ''9'']"
  from map3 [OF h [THEN conjunct2]] obtain x y z where
    xs: "filteredData st = [x, y, z]" and
    c: "cell_at x c = str ''10''" "cell_at y c = str ''2''" "cell_at z c = str ''9''"
    by blast
  from sort_10_2_9 [OF c] have "filteredData (sortTable c st) = [y, z, x]"
    by (simp add: sortTable_filteredData h [THEN conjunct1] xs)
  with c show "map (\<lambda>r. cell_at r c) (filteredData (sortTable c st)) = [str ''2'', str ''9'', str ''10'']"
    by simp
next
  assume h: "sortDirection (sortTable c st) = Asc \<and>
    map (\<lambda>r. cell_at r c) (filteredData st) = [str ''10'', str ''9'', str ''abc'']"
  from map3 [OF h [THEN conjunct2]] obtain x y z where
    xs: "filteredData st = [x, y, z]" and
    c: "cell_at x c = str ''10''" "cell_at y c = str ''9''" "cell_at z c = str ''abc''"
    by blast
  from sort_10_9_abc [OF c] have "filteredData (sortTable c st) = [y, x, z]"
    by (simp add: sortTable_filteredData h [THEN conjunct1] xs)
  with c show "map (\<lambda>r. cell_at r c) (filteredData (sortTable c st)) = [str ''9'', str ''10'', str ''abc'']"
    by simp
qed

theorem sortTable_numeric_compare_witness:
  "compare_rows 1 Asc [str ''x'', str ''10''] [str ''y'', str ''2''] = Num 8 \<and>
   str_less (str ''10'') (str ''2'') \<and>
   map (\<lambda>r. cell_at r 1)
     (filteredData (sortTable 1 \<lparr>data = [], headers = [str ''k'', str ''v''], sortColumn = - 1,
        sortDirection = Asc,
        filteredData = [[str ''x'', str ''10''], [str ''y'', str ''2''], [str ''z'', str ''9'']],
        tables = [], currentTableIndex = 0\<rparr>)) = [str ''2'', str ''9'', str ''10''] \<and>
   map (\<lambda>r. cell_at r 1)
     (filteredData (sortTable 1 \<lparr>data = [], headers = [str ''k'', str ''v''], sortColumn = - 1,
        sortDirection = Asc,
        filteredData = [[str ''x'', str ''10''], [str ''y'', str ''9''], [str ''z'', str ''abc'']],
        tables = [], currentTableIndex = 0\<rparr>)) = [str ''9'', str ''10'', str ''abc'']"
proof -
  let ?s1 = "\<lparr>data = [], headers = [str ''k'', str ''v''], sortColumn = - 1,
        sortDirection = Asc,
        filteredData = [[str ''x'', str ''10''], [str ''y'', str ''2''], [str ''z'', str ''9'']],
        tables = [], currentTableIndex = 0\<rparr>"
  let ?s2 = "\<lparr>data = [], headers = [str ''k'', str ''v''], sortColumn = - 1,
        sortDirection = Asc,
        filteredData = [[str ''x'', str ''10''], [str ''y'', str ''9''], [str ''z'', str ''abc'']],
        tables = [], currentTableIndex = 0\<rparr>"
  have cells: "cell_at [str ''x'', str ''10''] 1 = str ''10''" "cell_at [str ''y'', str ''2''] 1 = str ''2''"
    by (simp_all add: cell_at_def)
  have n: "parseFloat (cell_at [str ''x'', str ''10''] 1) \<noteq> NaN \<and>
           parseFloat (cell_at [str ''y'', str ''2''] 1) \<noteq> NaN"
    unfolding cells by (simp add: parseFloat_examples)
  from sortTable_numeric_compare [of "[str ''x'', str ''10'']" 1 "[str ''y'', str ''2'']" ?s1,
      THEN conjunct1, THEN mp, OF n]
  have 1: "compare_rows 1 Asc [str ''x'', str ''10''] [str ''y'', str ''2''] = Num 8"
    unfolding cells by (simp add: parseFloat_examples)
  have 2: "str_less (str ''10'') (str ''2'')" by (simp add: str_def)
  have h1: "sortDirection (sortTable 1 ?s1) = Asc \<and>
     map (\<lambda>r. cell_at r 1) (filteredData ?s1) = [str ''10'', str ''2'', str ''9'']"
    by (simp add: sortTable_def cell_at_def)
  have h2: "sortDirection (sortTable 1 ?s2) = Asc \<and>
     map (\<lambda>r. cell_at r 1) (filteredData ?s2) = [str ''10'', str ''9'', str ''abc'']"
    by (simp add: sortTable_def cell_at_def)
  note 3 = sortTable_numeric_compare [of "[]" 1 "[]" ?s1, THEN conjunct2, THEN conjunct1,
      THEN mp, OF h1]
  note 4 = sortTable_numeric_compare [of "[]" 1 "[]" ?s2, THEN conjunct2, THEN conjunct2,
      THEN mp, OF h2]
  from 1 2 3 4 show ?thesis by (intro conjI)
qed

section \<open>Properties of double-precision arithmetic\<close>

text \<open>
  \<open>binade\<close> finds the power of two below a positive number. \<open>to_double\<close> returns a
  number with a significand of 53 bits and moves its argument by at most half a unit in
  the last place of that significand, a relative error of at most \<open>2 ^ (- 53)\<close>.
  Natural numbers below \<open>2 ^ 53\<close> are doubles.
\<close>

lemma bit_length_bounds:
  "0 < n \<Longrightarrow> 2 ^ (bit_length n - 1) \<le> n \<and> n < 2 ^ bit_length n"
proof (induction n rule: bit_length.induct)
  case (1 n)
  show ?case
  proof (cases "n div 2 \<le> 0")
    case True
    with "1.prems" have "n = 1" by linarith
    then show ?thesis by (simp add: bit_length.simps)
  next
    case False
    then have pos: "0 < n div 2" by simp
    from "1.IH" "1.prems" pos
    have IH: "2 ^ (bit_length (n div 2) - 1) \<le> n div 2" "n div 2 < 2 ^ bit_length (n div 2)"
      by simp_all
    have b: "bit_length n = Suc (bit_length (n div 2))"
      using "1.prems" by (subst bit_length.simps) simp
    have b1: "bit_length (n div 2) \<noteq> 0"
      using pos by (subst bit_length.simps) simp
    then have p: "(2::int) ^ bit_length (n div 2) = 2 * 2 ^ (bit_length (n div 2) - 1)"
      by (cases "bit_length (n div 2)") simp_all
    have "2 ^ bit_length (n div 2) \<le> n" using IH(1) p by linarith
    moreover have "n < 2 * 2 ^ bit_length (n div 2)" using IH(2) by linarith
    ultimately show ?thesis by (simp add: b)
  qed
qed

lemma pow2_power_int: "pow2 k = power_int 2 k"
  by (simp add: pow2_def power_int_def power_one_over inverse_eq_divide)

lemma pow2_pos: "0 < pow2 k"
  by (simp add: pow2_def)

lemma pow2_add: "pow2 (a + b) = pow2 a * pow2 b"
  by (simp add: pow2_power_int power_int_add)

lemma pow2_of_nat: "pow2 (int n) = 2 ^ n"
  by (simp add: pow2_def)

lemma pow2_neg: "pow2 (- int n) = 1 / 2 ^ n"
  by (simp add: pow2_power_int power_int_minus inverse_eq_divide)

lemma binade_bounds:
  assumes "0 < x"
  shows "pow2 (binade x) \<le> x \<and> x < pow2 (binade x + 1)"
proof (cases "1 \<le> x")
  case True
  then have fp: "0 < \<lfloor>x\<rfloor>" by simp
  let ?b = "bit_length \<lfloor>x\<rfloor>"
  from bit_length_bounds [OF fp] have lo: "2 ^ (?b - 1) \<le> \<lfloor>x\<rfloor>" and hi: "\<lfloor>x\<rfloor> < 2 ^ ?b"
    by blast+
  have b1: "?b \<noteq> 0" using fp by (subst bit_length.simps) simp
  have e: "binade x = int (?b - 1)" using True b1 by (simp add: binade_def)
  have "rat_of_int (2 ^ (?b - 1)) \<le> rat_of_int \<lfloor>x\<rfloor>" using lo by (simp only: of_int_le_iff)
  also have "\<dots> \<le> x" by simp
  finally have 1: "pow2 (binade x) \<le> x" by (simp add: e pow2_of_nat)
  from hi have "\<lfloor>x\<rfloor> + 1 \<le> 2 ^ ?b" by simp
  then have "rat_of_int (\<lfloor>x\<rfloor> + 1) \<le> rat_of_int (2 ^ ?b)" by (simp only: of_int_le_iff)
  moreover have "x < rat_of_int (\<lfloor>x\<rfloor> + 1)" by linarith
  ultimately have "x < 2 ^ ?b" by simp
  moreover have "binade x + 1 = int ?b" using e b1 by simp
  ultimately have 2: "x < pow2 (binade x + 1)" by (simp add: pow2_of_nat)
  from 1 2 show ?thesis ..
next
  case False
  then have x1: "x < 1" by simp
  let ?y = "1 / x"
  let ?k = "\<lceil>?y\<rceil> - 1"
  let ?b = "bit_length ?k"
  from assms x1 have y1: "1 < ?y" by simp
  then have "2 \<le> \<lceil>?y\<rceil>" by linarith
  then have kp: "0 < ?k" by simp
  from bit_length_bounds [OF kp] have lo: "2 ^ (?b - 1) \<le> ?k" and hi: "?k < 2 ^ ?b"
    by blast+
  have b1: "?b \<noteq> 0" using kp by (subst bit_length.simps) simp
  have e: "binade x = - int ?b" using False by (simp add: binade_def)
  have "?y \<le> rat_of_int \<lceil>?y\<rceil>" by simp
  also have "\<dots> \<le> rat_of_int (2 ^ ?b)" using hi by (simp only: of_int_le_iff)
  finally have yle: "?y \<le> 2 ^ ?b" by simp
  have "rat_of_int (2 ^ (?b - 1)) \<le> rat_of_int ?k" using lo by (simp only: of_int_le_iff)
  also have "\<dots> < ?y" by linarith
  finally have ylt: "2 ^ (?b - 1) < ?y" by simp
  from yle assms have "1 \<le> 2 ^ ?b * x" by (simp add: field_simps)
  then have 1: "pow2 (binade x) \<le> x" by (simp add: e pow2_neg field_simps)
  from ylt assms have "2 ^ (?b - 1) * x < 1" by (simp add: field_simps)
  moreover have "binade x + 1 = - int (?b - 1)" using e b1 by simp
  ultimately have 2: "x < pow2 (binade x + 1)" by (simp add: pow2_neg field_simps)
  from 1 2 show ?thesis ..
qed

lemma round_half_even_error: "\<bar>rat_of_int (round_half_even q) - q\<bar> \<le> 1 / 2"
proof -
  have "rat_of_int \<lfloor>q\<rfloor> \<le> q" "q < rat_of_int \<lfloor>q\<rfloor> + 1" by linarith+
  then show ?thesis
    by (auto simp: round_half_even_def Let_def abs_le_iff)
qed

lemma round_half_even_int [simp]: "round_half_even (rat_of_int z) = z"
  by (simp add: round_half_even_def)

text \<open>The result has a significand of 53 bits, and is within half a unit of its last place.\<close>

lemma round_half_even_cases: "round_half_even q = \<lfloor>q\<rfloor> \<or> round_half_even q = \<lfloor>q\<rfloor> + 1"
  by (simp add: round_half_even_def Let_def)

lemma to_double_significand:
  assumes "x \<noteq> 0"
  shows "\<exists>m e. to_double x = sgn x * rat_of_int m * pow2 e \<and> 2 ^ 52 \<le> m \<and> m \<le> 2 ^ 53"
proof -
  define a where "a = \<bar>x\<bar>"
  define e where "e = binade a - 52"
  define q where "q = a / pow2 e"
  define m where "m = round_half_even q"
  from assms have ap: "0 < a" by (simp add: a_def)
  from binade_bounds [OF ap] have lo: "pow2 (binade a) \<le> a" and hi: "a < pow2 (binade a + 1)"
    by blast+
  have "pow2 (binade a) = pow2 e * 2 ^ 52"
    using pow2_add [of e 52] by (simp add: e_def pow2_def)
  with lo have "pow2 e * 2 ^ 52 \<le> a" by simp
  then have q52: "2 ^ 52 \<le> q" using pow2_pos [of e] by (simp add: q_def field_simps)
  have "binade a + 1 = e + 53" by (simp add: e_def)
  moreover have "pow2 53 = 2 ^ 53" by (simp add: pow2_def)
  ultimately have "pow2 (binade a + 1) = pow2 e * 2 ^ 53"
    by (simp only: pow2_add)
  with hi have "a < pow2 e * 2 ^ 53" by simp
  then have q53: "q < 2 ^ 53" using pow2_pos [of e] by (simp add: q_def field_simps)
  from q52 have "rat_of_int (2 ^ 52) \<le> q" by simp
  then have f52: "2 ^ 52 \<le> \<lfloor>q\<rfloor>" by (simp only: le_floor_iff)
  from q53 have "q < rat_of_int (2 ^ 53)" by simp
  then have f53: "\<lfloor>q\<rfloor> < 2 ^ 53" by (simp only: floor_less_iff)
  from round_half_even_cases [of q] f52 f53 have "2 ^ 52 \<le> m \<and> m \<le> 2 ^ 53"
    unfolding m_def by auto
  moreover have "to_double x = sgn x * rat_of_int m * pow2 e"
    using assms by (simp add: to_double_def Let_def m_def q_def e_def a_def)
  ultimately show ?thesis by blast
qed

lemma to_double_error: "\<bar>to_double x - x\<bar> \<le> \<bar>x\<bar> / 2 ^ 53"
proof (cases "x = 0")
  case True
  then show ?thesis by (simp add: to_double_def)
next
  case False
  define a where "a = \<bar>x\<bar>"
  define e where "e = binade a - 52"
  define q where "q = a / pow2 e"
  define m where "m = round_half_even q"
  from False have ap: "0 < a" by (simp add: a_def)
  from binade_bounds [OF ap] have lo: "pow2 (binade a) \<le> a" by blast
  have "pow2 (binade a) = pow2 e * 2 ^ 52"
    using pow2_add [of e 52] by (simp add: e_def pow2_def)
  with lo have "pow2 e * 2 ^ 52 \<le> a" by simp
  then have q52: "2 ^ 52 \<le> q" using pow2_pos [of e] by (simp add: q_def field_simps)
  have td: "to_double x = sgn x * rat_of_int m * pow2 e"
    using False by (simp add: to_double_def Let_def m_def q_def e_def a_def)
  have xq: "x = sgn x * q * pow2 e"
    using pow2_pos [of e] by (simp add: q_def a_def sgn_mult_abs flip: abs_sgn mult.assoc)
  have "to_double x - x = sgn x * (rat_of_int m - q) * pow2 e"
    by (subst (2) xq) (simp add: td algebra_simps)
  then have "\<bar>to_double x - x\<bar> = \<bar>rat_of_int m - q\<bar> * pow2 e"
    using False pow2_pos [of e] by (simp add: abs_mult abs_sgn_eq)
  also have "\<dots> \<le> (1 / 2) * pow2 e"
    using round_half_even_error [of q] pow2_pos [of e] by (simp add: m_def)
  also have "\<dots> \<le> (q / 2 ^ 53) * pow2 e"
    using q52 pow2_pos [of e] by (simp add: field_simps)
  also have "\<dots> = a / 2 ^ 53" using pow2_pos [of e] by (simp add: q_def)
  finally show ?thesis by (simp add: a_def)
qed

lemma to_double_pos:
  assumes "0 < x"
  shows "0 < to_double x"
proof -
  have "x - to_double x \<le> \<bar>to_double x - x\<bar>" by linarith
  also have "\<dots> \<le> \<bar>x\<bar> / 2 ^ 53" by (rule to_double_error)
  also have "\<dots> = x / 2 ^ 53" using assms by simp
  finally have "x - to_double x \<le> x / 2 ^ 53" .
  moreover from assms have "x / 2 ^ 53 < x" by simp
  ultimately show ?thesis by linarith
qed

lemma to_double_nonneg: "0 \<le> x \<Longrightarrow> 0 \<le> to_double x"
  using to_double_pos [of x] by (cases "x = 0") (simp_all add: to_double_def less_imp_le)

lemma to_double_upper: "0 \<le> x \<Longrightarrow> x \<le> b \<Longrightarrow> \<bar>to_double x - x\<bar> \<le> b / 2 ^ 53"
proof -
  assume a: "0 \<le> x" "x \<le> b"
  have "\<bar>to_double x - x\<bar> \<le> \<bar>x\<bar> / 2 ^ 53" by (rule to_double_error)
  also have "\<dots> \<le> b / 2 ^ 53" using a by (simp add: divide_right_mono)
  finally show ?thesis .
qed

lemma to_double_nat:
  assumes "n < 2 ^ 53"
  shows "to_double (rat_of_nat n) = rat_of_nat n"
proof (cases "n = 0")
  case True
  then show ?thesis by (simp add: to_double_def)
next
  case False
  let ?b = "bit_length (int n)"
  from False have np: "0 < int n" by simp
  from bit_length_bounds [OF np] have lo: "2 ^ (?b - 1) \<le> int n" by blast
  have b1: "?b \<noteq> 0" using np by (subst bit_length.simps) simp
  from lo assms have "(2::int) ^ (?b - 1) < 2 ^ 53"
    by (metis le_less_trans of_nat_less_iff of_nat_numeral of_nat_power)
  then have "?b - 1 < 53" by (simp only: power_strict_increasing_iff)
  with b1 have b53: "?b \<le> 53" by simp
  define k where "k = 53 - ?b"
  have ge1: "1 \<le> rat_of_nat n" using False by simp
  have fl: "\<lfloor>rat_of_nat n\<rfloor> = int n" by simp
  have e: "binade \<bar>rat_of_nat n\<bar> - 52 = - int k"
    using ge1 b1 b53 by (simp add: binade_def k_def)
  have q: "\<bar>rat_of_nat n\<bar> / pow2 (- int k) = rat_of_int (int n * 2 ^ k)"
    by (simp add: pow2_neg)
  have "to_double (rat_of_nat n) = rat_of_int (int n * 2 ^ k) * pow2 (- int k)"
    using False unfolding to_double_def Let_def e q round_half_even_int by simp
  then show ?thesis by (simp add: pow2_neg)
qed

section \<open>Properties of the delimiter detector\<close>

subsection \<open>Evaluating double-precision arithmetic\<close>

lemma floor_num_div: "\<lfloor>numeral a / numeral b :: rat\<rfloor> = numeral a div numeral b"
  using floor_divide_of_int_eq [of "numeral a" "numeral b", where ?'a = rat] by simp

lemma ceiling_num_div: "\<lceil>numeral a / numeral b :: rat\<rceil> = - ((- numeral a) div numeral b)"
  using ceiling_divide_eq_div [of "numeral a" "numeral b", where ?'a = rat] by simp

lemmas to_double_eval =
  to_double_def [of 0] to_double_def [of 1] to_double_def [of "numeral a"]
  to_double_def [of "numeral a / numeral b"] to_double_def [of "1 / numeral b"]
  to_double_def [of "- 1"] to_double_def [of "- numeral a"]
  to_double_def [of "- (numeral a / numeral b)"] to_double_def [of "- (1 / numeral b)"]
  bit_length.simps [of 0] bit_length.simps [of 1] bit_length.simps [of "numeral a"]
  binade_def round_half_even_def pow2_def Let_def floor_num_div ceiling_num_div
  for a b

lemmas dd_eval = detectDelimiter_def best_step_def score_def js_add_def js_sub_def js_div_def
  Math_pow_2_def to_double_eval occurrences_def delimiters_def str_simps Let_def

lemmas spec_eval = lines_spec_def score_spec_def mean_def variance_def occurrences_def
  power2_eq_square str_simps

subsection \<open>The computed score and the exact one\<close>

text \<open>
  The sum of the counts is exact. With at most five lines and at most 1024 occurrences
  in a line, each squared deviation is computed within \<open>2 ^ (- 28)\<close>, their rounded sum
  within \<open>2 ^ (- 27)\<close> a term, the denominator within \<open>2 ^ (- 25)\<close>, and the score within
  a relative error of \<open>2 ^ (- 23)\<close> of \<open>mean / (variance + 1)\<close>.
\<close>

lemma sum_fold_exact:
  "a + sum_list cs < 2 ^ 53 \<Longrightarrow>
   foldl (\<lambda>a b. js_add a (rat_of_nat b)) (rat_of_nat a) cs = rat_of_nat (a + sum_list cs)"
proof (induction cs arbitrary: a)
  case Nil
  then show ?case by simp
next
  case (Cons c cs)
  from Cons.prems have "a + c < 2 ^ 53" by simp
  then have "js_add (rat_of_nat a) (rat_of_nat c) = rat_of_nat (a + c)"
    using to_double_nat [of "a + c"] by (simp add: js_add_def)
  moreover from Cons.prems have "(a + c) + sum_list cs < 2 ^ 53" by (simp add: add.assoc)
  ultimately show ?case using Cons.IH [of "a + c"] by (simp add: add.assoc)
qed

lemma sum_list_bounded: "\<forall>c \<in> set cs. c \<le> (k::nat) \<Longrightarrow> sum_list cs \<le> length cs * k"
  by (induction cs) auto

text \<open>One squared deviation.\<close>

lemma squared_deviation:
  fixes c m avg :: rat
  assumes avg: "\<bar>avg - m\<bar> \<le> 1 / 2 ^ 43" and m: "0 \<le> m" "m \<le> 1024" and c: "0 \<le> c" "c \<le> 1024"
  shows "\<bar>Math_pow_2 (js_sub c avg) - (c - m) ^ 2\<bar> \<le> 1 / 2 ^ 28"
    and "0 \<le> Math_pow_2 (js_sub c avg)"
    and "Math_pow_2 (js_sub c avg) \<le> 2 ^ 21"
proof -
  define d where "d = c - m"
  define x where "x = c - avg"
  define dh where "dh = to_double x"
  define ph where "ph = to_double (dh * dh)"
  have ph: "Math_pow_2 (js_sub c avg) = ph"
    by (simp add: Math_pow_2_def js_sub_def ph_def dh_def x_def)
  have d: "\<bar>d\<bar> \<le> 1024" using m c by (simp add: d_def abs_le_iff)
  have xd: "\<bar>x - d\<bar> \<le> 1 / 2 ^ 43" using avg by (simp add: x_def d_def abs_minus_commute)
  have n43: "(1::rat) / 2 ^ 43 \<le> 1" by simp
  have x: "\<bar>x\<bar> \<le> 1025" using d xd n43 by linarith
  have "\<bar>dh - x\<bar> \<le> \<bar>x\<bar> / 2 ^ 53" unfolding dh_def by (rule to_double_error)
  also have "\<dots> \<le> 1025 / 2 ^ 53" using x by (simp add: divide_right_mono)
  finally have dhx: "\<bar>dh - x\<bar> \<le> 1025 / 2 ^ 53" .
  have n41: "(1025::rat) / 2 ^ 53 + 1 / 2 ^ 43 \<le> 1 / 2 ^ 41" "(1::rat) / 2 ^ 41 \<le> 1" by simp_all
  from dhx xd n41 have dhd: "\<bar>dh - d\<bar> \<le> 1 / 2 ^ 41" by linarith
  from dhd d n41 have dh: "\<bar>dh\<bar> \<le> 1025" by linarith
  from dh d have sum: "\<bar>dh + d\<bar> \<le> 2049" by linarith
  have "\<bar>dh * dh - d * d\<bar> = \<bar>dh - d\<bar> * \<bar>dh + d\<bar>"
    by (simp add: abs_mult [symmetric] algebra_simps)
  also have "\<dots> \<le> (1 / 2 ^ 41) * 2049"
    using dhd sum by (intro mult_mono) simp_all
  finally have sq: "\<bar>dh * dh - d * d\<bar> \<le> 2049 / 2 ^ 41" by simp
  have "dh * dh = \<bar>dh\<bar> * \<bar>dh\<bar>" by simp
  also have "\<dots> \<le> 1025 * 1025" using dh by (intro mult_mono) simp_all
  finally have dh2: "dh * dh \<le> 1050625" by simp
  have nn: "0 \<le> dh * dh" by simp
  from to_double_upper [OF nn dh2] have phe: "\<bar>ph - dh * dh\<bar> \<le> 1050625 / 2 ^ 53"
    by (simp add: ph_def)
  have n28: "(2049::rat) / 2 ^ 41 + 1050625 / 2 ^ 53 \<le> 1 / 2 ^ 28"
    "(1050625::rat) + 1050625 / 2 ^ 53 \<le> 2 ^ 21" by simp_all
  from sq phe n28 have "\<bar>ph - d * d\<bar> \<le> 1 / 2 ^ 28" by linarith
  then show "\<bar>Math_pow_2 (js_sub c avg) - (c - m) ^ 2\<bar> \<le> 1 / 2 ^ 28"
    by (simp add: ph d_def power2_eq_square)
  show "0 \<le> Math_pow_2 (js_sub c avg)"
    unfolding ph ph_def using nn by (rule to_double_nonneg)
  from phe dh2 n28 show "Math_pow_2 (js_sub c avg) \<le> 2 ^ 21"
    unfolding ph by linarith
qed

text \<open>The rounded sum of at most five terms.\<close>

lemma rounded_sum:
  fixes g h :: "'a \<Rightarrow> rat"
  assumes "\<forall>c \<in> set cs. \<bar>g c - h c\<bar> \<le> 1 / 2 ^ 28 \<and> 0 \<le> g c \<and> g c \<le> 2 ^ 21"
    and "\<bar>a - A\<bar> \<le> rat_of_nat k / 2 ^ 27" and "0 \<le> a" and "a \<le> rat_of_nat k * 2 ^ 22"
    and "k + length cs \<le> 5"
  shows "\<bar>foldl (\<lambda>s v. js_add s (g v)) a cs - (A + sum_list (map h cs))\<bar>
           \<le> rat_of_nat (k + length cs) / 2 ^ 27 \<and>
         0 \<le> foldl (\<lambda>s v. js_add s (g v)) a cs \<and>
         foldl (\<lambda>s v. js_add s (g v)) a cs \<le> rat_of_nat (k + length cs) * 2 ^ 22"
  using assms
proof (induction cs arbitrary: a A k)
  case Nil
  then show ?case by simp
next
  case (Cons c cs)
  define a' where "a' = js_add a (g c)"
  from Cons.prems(1) have gc: "\<bar>g c - h c\<bar> \<le> 1 / 2 ^ 28" "0 \<le> g c" "g c \<le> 2 ^ 21"
    and rest: "\<forall>c \<in> set cs. \<bar>g c - h c\<bar> \<le> 1 / 2 ^ 28 \<and> 0 \<le> g c \<and> g c \<le> 2 ^ 21"
    by simp_all
  from Cons.prems(5) have k4: "k \<le> 4" by simp
  then have k4r: "rat_of_nat k \<le> 4" by simp
  have nn: "0 \<le> a + g c" using Cons.prems(3) gc(2) by simp
  have "rat_of_nat k * 2 ^ 22 \<le> 4 * 2 ^ 22" using k4r by (intro mult_right_mono) simp_all
  then have ub: "a + g c \<le> 2 ^ 25" using Cons.prems(4) gc(3) by simp
  from to_double_upper [OF nn ub] have r: "\<bar>a' - (a + g c)\<bar> \<le> 1 / 2 ^ 28"
    by (simp add: a'_def js_add_def)
  have s27: "rat_of_nat (Suc k) / 2 ^ 27 = rat_of_nat k / 2 ^ 27 + 1 / 2 ^ 28 + 1 / 2 ^ 28"
    by (simp add: field_simps)
  have 1: "\<bar>a' - (A + h c)\<bar> \<le> rat_of_nat (Suc k) / 2 ^ 27"
    unfolding s27 using r gc(1) Cons.prems(2) by linarith
  have 2: "0 \<le> a'" unfolding a'_def js_add_def using nn by (rule to_double_nonneg)
  have s22: "rat_of_nat (Suc k) * 2 ^ 22 = rat_of_nat k * 2 ^ 22 + 2 ^ 21 + 2 ^ 21"
    "(1::rat) / 2 ^ 28 \<le> 2 ^ 21"
    by (simp_all add: field_simps)
  have 3: "a' \<le> rat_of_nat (Suc k) * 2 ^ 22"
    unfolding s22(1) using r Cons.prems(4) gc(3) s22(2) by linarith
  from Cons.prems(5) have 4: "Suc k + length cs \<le> 5" by simp
  from Cons.IH [OF rest 1 2 3 4] show ?case
    by (simp add: a'_def add.assoc)
qed

text \<open>The quotient of the rounded mean and the rounded denominator.\<close>

lemma quotient_accuracy:
  fixes m D avg Dh :: rat
  assumes m: "0 < m" and D: "1 \<le> D"
    and avg: "\<bar>avg - m\<bar> \<le> m / 2 ^ 53" and Dh: "\<bar>Dh - D\<bar> \<le> 1 / 2 ^ 25"
  shows "\<bar>to_double (avg / Dh) - m / D\<bar> \<le> (m / D) / 2 ^ 23"
proof -
  define s where "s = m / D"
  define r where "r = avg / Dh"
  have sp: "0 < s" using m D by (simp add: s_def)
  have lo: "D * (1 - 1 / 2 ^ 25) \<le> Dh"
  proof -
    have "D * (1 - 1 / 2 ^ 25) = D - D / 2 ^ 25" by (simp add: algebra_simps)
    also have "\<dots> \<le> D - 1 / 2 ^ 25" using D by (simp add: divide_right_mono)
    also have "\<dots> \<le> Dh" using Dh by linarith
    finally show ?thesis .
  qed
  have hi: "Dh \<le> D * (1 + 1 / 2 ^ 25)"
  proof -
    have "Dh \<le> D + 1 / 2 ^ 25" using Dh by linarith
    also have "\<dots> \<le> D + D / 2 ^ 25" using D by (simp add: divide_right_mono)
    also have "\<dots> = D * (1 + 1 / 2 ^ 25)" by (simp add: algebra_simps)
    finally show ?thesis .
  qed
  have lop: "0 < D * (1 - 1 / 2 ^ 25)" using D by simp
  then have Dhp: "0 < Dh" using lo by linarith
  have e0: "m * (1 + 1 / 2 ^ 53) = m + m / 2 ^ 53" "m * (1 - 1 / 2 ^ 53) = m - m / 2 ^ 53"
    by (simp_all add: algebra_simps)
  have au: "avg \<le> m * (1 + 1 / 2 ^ 53)" unfolding e0 using avg by linarith
  have al: "m * (1 - 1 / 2 ^ 53) \<le> avg" unfolding e0 using avg by linarith
  have ap: "0 \<le> avg"
  proof -
    have "0 \<le> m * (1 - 1 / 2 ^ 53)" using m by simp
    with al show ?thesis by linarith
  qed
  have "r \<le> (m * (1 + 1 / 2 ^ 53)) / (D * (1 - 1 / 2 ^ 25))"
    unfolding r_def using m au lop lo by (intro frac_le) simp_all
  also have "\<dots> = s * ((1 + 1 / 2 ^ 53) / (1 - 1 / 2 ^ 25))" by (simp add: s_def)
  also have "\<dots> \<le> s * (1 + 1 / 2 ^ 24)" using sp by (intro mult_left_mono) simp_all
  finally have ru: "r \<le> s * (1 + 1 / 2 ^ 24)" .
  have "s * (1 - 1 / 2 ^ 24) \<le> s * ((1 - 1 / 2 ^ 53) / (1 + 1 / 2 ^ 25))"
    using sp by (intro mult_left_mono) simp_all
  also have "\<dots> = (m * (1 - 1 / 2 ^ 53)) / (D * (1 + 1 / 2 ^ 25))" by (simp add: s_def)
  also have "\<dots> \<le> r"
    unfolding r_def using ap al Dhp hi by (intro frac_le) simp_all
  finally have rl: "s * (1 - 1 / 2 ^ 24) \<le> r" .
  have rp: "0 \<le> r" unfolding r_def using ap Dhp by simp
  have "\<bar>to_double r - r\<bar> \<le> \<bar>r\<bar> / 2 ^ 53" by (rule to_double_error)
  also have "\<dots> = r / 2 ^ 53" using rp by simp
  also have "\<dots> \<le> (s * (1 + 1 / 2 ^ 24)) / 2 ^ 53" using ru by (simp add: divide_right_mono)
  finally have tr: "\<bar>to_double r - r\<bar> \<le> (s * (1 + 1 / 2 ^ 24)) / 2 ^ 53" .
  have e1: "s * (1 + 1 / 2 ^ 24) = s + s / 2 ^ 24" "s * (1 - 1 / 2 ^ 24) = s - s / 2 ^ 24"
    by (simp_all add: algebra_simps)
  have e2: "(s * (1 + 1 / 2 ^ 24)) / 2 ^ 53 + s / 2 ^ 24 \<le> s / 2 ^ 23"
    using sp by (simp add: field_simps)
  from tr ru rl e2 have "\<bar>to_double r - s\<bar> \<le> s / 2 ^ 23"
    unfolding e1 by linarith
  then show ?thesis by (simp add: r_def s_def)
qed

lemma mean_nonneg: "0 \<le> mean cs"
  by (simp add: mean_def)

lemma variance_nonneg: "0 \<le> variance cs"
  by (auto simp: variance_def intro!: divide_nonneg_nonneg sum_list_nonneg)

lemma score_accuracy:
  assumes ne0: "lines \<noteq> []" and len0: "length lines \<le> 5"
    and cnt0: "\<forall>l \<in> set lines. occurrences d l \<le> 1024"
  shows "\<bar>score lines d - score_spec (map (occurrences d) lines)\<bar>
           \<le> score_spec (map (occurrences d) lines) / 2 ^ 23"
proof -
  define cs where "cs = map (occurrences d) lines"
  from ne0 have ne: "cs \<noteq> []" by (simp add: cs_def)
  from len0 have len: "length cs \<le> 5" by (simp add: cs_def)
  from cnt0 have cnt: "\<forall>c \<in> set cs. c \<le> 1024" by (auto simp: cs_def)
  define n where "n = rat_of_nat (length cs)"
  define m where "m = mean cs"
  define V where "V = variance cs"
  define avg where "avg = js_div (foldl (\<lambda>a b. js_add a (rat_of_nat b)) 0 cs) n"
  define g where "g = (\<lambda>v. Math_pow_2 (js_sub (rat_of_nat v) avg))"
  define acc where "acc = foldl (\<lambda>s v. js_add s (g v)) 0 cs"
  define vh where "vh = js_div acc n"
  define Dh where "Dh = js_add vh 1"
  have sc: "score lines d = (if avg > 0 then js_div avg Dh else 0)"
    by (simp add: score_def Let_def avg_def n_def g_def acc_def vh_def Dh_def cs_def)
  from ne have n1: "1 \<le> n" by (cases cs) (simp_all add: n_def)
  from len have n5: "n \<le> 5" by (simp add: n_def)
  from len have "length cs * 1024 \<le> 5 * 1024" by (intro mult_le_mono1)
  with sum_list_bounded [OF cnt] have S: "sum_list cs \<le> 5120" by simp
  have S2: "sum_list cs \<le> length cs * 1024" by (rule sum_list_bounded [OF cnt])
  have fold1: "foldl (\<lambda>a b. js_add a (rat_of_nat b)) 0 cs = rat_of_nat (sum_list cs)"
    using sum_fold_exact [of 0 cs] S by simp
  have mn: "0 \<le> m" unfolding m_def by (rule mean_nonneg)
  have "rat_of_nat (sum_list cs) \<le> rat_of_nat (length cs * 1024)"
    using S2 by (simp only: of_nat_le_iff)
  then have "rat_of_nat (sum_list cs) \<le> 1024 * n" by (simp add: n_def)
  then have m1024: "m \<le> 1024" using n1 by (simp add: m_def mean_def n_def [symmetric] field_simps)
  have avg_m: "avg = to_double m"
    by (simp add: avg_def fold1 js_div_def m_def mean_def n_def)
  have "\<bar>avg - m\<bar> \<le> \<bar>m\<bar> / 2 ^ 53" unfolding avg_m by (rule to_double_error)
  then have avg_err: "\<bar>avg - m\<bar> \<le> m / 2 ^ 53" using mn by simp
  also have "\<dots> \<le> 1024 / 2 ^ 53" using m1024 by (simp add: divide_right_mono)
  finally have avg43: "\<bar>avg - m\<bar> \<le> 1 / 2 ^ 43" by simp
  have el: "\<forall>c \<in> set cs. \<bar>g c - (rat_of_nat c - m) ^ 2\<bar> \<le> 1 / 2 ^ 28 \<and> 0 \<le> g c \<and> g c \<le> 2 ^ 21"
  proof
    fix c assume "c \<in> set cs"
    with cnt have "c \<le> 1024" by blast
    then have c: "rat_of_nat c \<le> 1024" "0 \<le> rat_of_nat c" by simp_all
    from squared_deviation [OF avg43 mn m1024 c(2) c(1)]
    show "\<bar>g c - (rat_of_nat c - m) ^ 2\<bar> \<le> 1 / 2 ^ 28 \<and> 0 \<le> g c \<and> g c \<le> 2 ^ 21"
      unfolding g_def by blast
  qed
  have "\<bar>acc - (0 + sum_list (map (\<lambda>c. (rat_of_nat c - m) ^ 2) cs))\<bar>
           \<le> rat_of_nat (0 + length cs) / 2 ^ 27 \<and>
         0 \<le> acc \<and> acc \<le> rat_of_nat (0 + length cs) * 2 ^ 22"
    unfolding acc_def using len by (intro rounded_sum [OF el]) simp_all
  then have acc_err: "\<bar>acc - sum_list (map (\<lambda>c. (rat_of_nat c - m) ^ 2) cs)\<bar> \<le> n / 2 ^ 27"
    and acc0: "0 \<le> acc" and accu: "acc \<le> n * 2 ^ 22"
    by (simp_all add: n_def)
  have V: "V = sum_list (map (\<lambda>c. (rat_of_nat c - m) ^ 2) cs) / n"
    by (simp add: V_def variance_def m_def n_def)
  have "acc / n - V = (acc - sum_list (map (\<lambda>c. (rat_of_nat c - m) ^ 2) cs)) / n"
    by (simp add: V diff_divide_distrib)
  then have "\<bar>acc / n - V\<bar> = \<bar>acc - sum_list (map (\<lambda>c. (rat_of_nat c - m) ^ 2) cs)\<bar> / n"
    using n1 by simp
  also have "\<dots> \<le> (n / 2 ^ 27) / n" using acc_err n1 by (simp add: divide_right_mono)
  also have "\<dots> = 1 / 2 ^ 27" using n1 by simp
  finally have vq_err: "\<bar>acc / n - V\<bar> \<le> 1 / 2 ^ 27" .
  have vq0: "0 \<le> acc / n" using acc0 n1 by simp
  have vqu: "acc / n \<le> 2 ^ 22" using accu n1 by (simp add: field_simps)
  from to_double_upper [OF vq0 vqu] have vh_r: "\<bar>vh - acc / n\<bar> \<le> 2 ^ 22 / 2 ^ 53"
    by (simp add: vh_def js_div_def)
  have vh0: "0 \<le> vh" unfolding vh_def js_div_def using vq0 by (rule to_double_nonneg)
  have num1: "(2::rat) ^ 22 / 2 ^ 53 \<le> 1" "(1::rat) / 2 ^ 27 + 2 ^ 22 / 2 ^ 53 \<le> 1 / 2 ^ 26" by simp_all
  have num3: "(2::rat) ^ 22 + 2 \<le> 2 ^ 23" by simp
  from vh_r vqu num1(1) num3 have vhu: "vh + 1 \<le> 2 ^ 23" by linarith
  from vh0 have d0: "0 \<le> vh + 1" by simp
  from to_double_upper [OF d0 vhu] have Dh_r: "\<bar>Dh - (vh + 1)\<bar> \<le> 2 ^ 23 / 2 ^ 53"
    by (simp add: Dh_def js_add_def)
  have num2: "(1::rat) / 2 ^ 27 + 2 ^ 22 / 2 ^ 53 + 2 ^ 23 / 2 ^ 53 \<le> 1 / 2 ^ 25" by simp
  from vq_err vh_r Dh_r num2 have Dh_err: "\<bar>Dh - (V + 1)\<bar> \<le> 1 / 2 ^ 25" by linarith
  have D1: "1 \<le> V + 1" using variance_nonneg [of cs] by (simp add: V_def)
  show ?thesis
  proof (cases "m = 0")
    case True
    then have "avg = 0" by (simp add: avg_m to_double_def)
    with True show ?thesis by (simp add: sc score_spec_def m_def cs_def [symmetric])
  next
    case False
    with mn have mp: "0 < m" by simp
    then have "0 < avg" unfolding avg_m by (rule to_double_pos)
    then have 1: "score lines d = to_double (avg / Dh)" by (simp add: sc js_div_def)
    have 2: "score_spec cs = m / (V + 1)" using False by (simp add: score_spec_def m_def V_def)
    from quotient_accuracy [OF mp D1 avg_err Dh_err] show ?thesis
      unfolding 1 2 [symmetric] cs_def [symmetric] by (simp add: 2)
  qed
qed

lemma split_char_nonempty: "split_char sep s \<noteq> []"
  by (induction s) (auto split: list.splits)

subsection \<open>The choice of the candidate\<close>

text \<open>
  The loop keeps the first candidate that reaches the highest score, when that score is
  above the initial \<open>bestScore\<close>; induction from the last candidate.
\<close>

lemma best_fold:
  "foldl (best_step L) (b0, s0) ds = (b, s) \<Longrightarrow>
   (\<forall>d \<in> set ds. score L d \<le> s) \<and> s0 \<le> s \<and>
   ((b = b0 \<and> s = s0) \<or>
    (\<exists>k<length ds. b = ds ! k \<and> s = score L (ds ! k) \<and> s0 < s \<and>
        (\<forall>j<k. score L (ds ! j) < s)))"
proof (induction ds arbitrary: b s rule: rev_induct)
  case Nil
  then show ?case by simp
next
  case (snoc d ds)
  obtain b' s' where f: "foldl (best_step L) (b0, s0) ds = (b', s')"
    by (cases "foldl (best_step L) (b0, s0) ds")
  from snoc.prems f have st: "best_step L (b', s') d = (b, s)" by simp
  note IH = snoc.IH [OF f]
  from IH have le: "\<forall>x \<in> set ds. score L x \<le> s'" and s0: "s0 \<le> s'" by blast+
  show ?case
  proof (cases "score L d > s'")
    case True
    with st have bs: "b = d" "s = score L d" by (auto simp: best_step_def)
    have "\<forall>j<length ds. score L ((ds @ [d]) ! j) < s"
      using le True bs by (auto simp: nth_append intro: le_less_trans)
    moreover have "\<forall>x \<in> set (ds @ [d]). score L x \<le> s"
      using le True bs by auto
    moreover have "s0 < s" using s0 True bs by simp
    ultimately show ?thesis using bs
      by (intro conjI disjI2 exI [of _ "length ds"]) auto
  next
    case False
    with st have bs: "b = b'" "s = s'" by (auto simp: best_step_def)
    from IH have "(b' = b0 \<and> s' = s0) \<or>
      (\<exists>k<length ds. b' = ds ! k \<and> s' = score L (ds ! k) \<and> s0 < s' \<and>
        (\<forall>j<k. score L (ds ! j) < s'))" by blast
    then have "(b = b0 \<and> s = s0) \<or>
      (\<exists>k<length (ds @ [d]). b = (ds @ [d]) ! k \<and> s = score L ((ds @ [d]) ! k) \<and> s0 < s \<and>
        (\<forall>j<k. score L ((ds @ [d]) ! j) < s))"
    proof
      assume "b' = b0 \<and> s' = s0"
      with bs show ?thesis by simp
    next
      assume "\<exists>k<length ds. b' = ds ! k \<and> s' = score L (ds ! k) \<and> s0 < s' \<and>
        (\<forall>j<k. score L (ds ! j) < s')"
      then obtain k where k: "k < length ds" "b' = ds ! k" "s' = score L (ds ! k)" "s0 < s'"
        "\<forall>j<k. score L (ds ! j) < s'" by blast
      then have "k < length (ds @ [d]) \<and> b = (ds @ [d]) ! k \<and> s = score L ((ds @ [d]) ! k) \<and> s0 < s \<and>
        (\<forall>j<k. score L ((ds @ [d]) ! j) < s)"
        using bs by (simp add: nth_append)
      then show ?thesis by blast
    qed
    moreover have "\<forall>x \<in> set (ds @ [d]). score L x \<le> s" using le False bs by auto
    moreover have "s0 \<le> s" using s0 bs by simp
    ultimately show ?thesis by blast
  qed
qed

text \<open>
  C5, amended. The detector scores the candidates comma, semicolon, tab and pipe over
  the first five lines of the trimmed text, blank lines included. When no candidate has
  a positive score it returns the comma; otherwise it returns the candidate with the
  highest score, the earliest one among equals: every candidate declared before it has
  a strictly lower score. The scores that are compared are the doubles that the
  arithmetic of the source returns; the score of a candidate that occurs at most 1024
  times in each of the lines is \<open>mean / (variance + 1)\<close> of its counts, and \<open>0\<close> when
  the mean is \<open>0\<close>, up to a relative error of \<open>2 ^ (- 23)\<close>.
\<close>

theorem detectDelimiter_choice:
  "((\<forall>d \<in> set delimiters. score (take 5 (split_char LF (trim tx))) d \<le> 0) \<longrightarrow>
      detectDelimiter tx = [COMMA]) \<and>
   (\<not> (\<forall>d \<in> set delimiters. score (take 5 (split_char LF (trim tx))) d \<le> 0) \<longrightarrow>
      (\<exists>k<length delimiters. detectDelimiter tx = [delimiters ! k] \<and>
         0 < score (take 5 (split_char LF (trim tx))) (delimiters ! k) \<and>
         (\<forall>j<length delimiters. score (take 5 (split_char LF (trim tx))) (delimiters ! j) \<le>
                                  score (take 5 (split_char LF (trim tx))) (delimiters ! k)) \<and>
         (\<forall>j<k. score (take 5 (split_char LF (trim tx))) (delimiters ! j) <
                 score (take 5 (split_char LF (trim tx))) (delimiters ! k)))) \<and>
   (\<forall>d. (\<forall>l \<in> set (take 5 (split_char LF (trim tx))). occurrences d l \<le> 1024) \<longrightarrow>
        \<bar>score (take 5 (split_char LF (trim tx))) d -
         score_spec (map (occurrences d) (take 5 (split_char LF (trim tx))))\<bar> \<le>
        score_spec (map (occurrences d) (take 5 (split_char LF (trim tx)))) / 2 ^ 23)"
proof -
  let ?L = "take 5 (split_char LF (trim tx))"
  obtain b s where f: "foldl (best_step ?L) (COMMA, 0) delimiters = (b, s)"
    by (cases "foldl (best_step ?L) (COMMA, 0) delimiters")
  then have r: "detectDelimiter tx = [b]" by (simp add: detectDelimiter_def Let_def)
  from best_fold [OF f] have
    le: "\<forall>d \<in> set delimiters. score ?L d \<le> s" and
    alt: "(b = COMMA \<and> s = 0) \<or>
      (\<exists>k<length delimiters. b = delimiters ! k \<and> s = score ?L (delimiters ! k) \<and> 0 < s \<and>
          (\<forall>j<k. score ?L (delimiters ! j) < s))"
    by blast+
  have ne: "?L \<noteq> []" using split_char_nonempty [of LF "trim tx"] by simp
  have len: "length ?L \<le> 5" by simp
  have acc: "\<forall>d. (\<forall>l \<in> set ?L. occurrences d l \<le> 1024) \<longrightarrow>
        \<bar>score ?L d - score_spec (map (occurrences d) ?L)\<bar> \<le>
        score_spec (map (occurrences d) ?L) / 2 ^ 23"
    using score_accuracy [OF ne len] by blast
  from alt have "((\<forall>d \<in> set delimiters. score ?L d \<le> 0) \<longrightarrow> detectDelimiter tx = [COMMA]) \<and>
   (\<not> (\<forall>d \<in> set delimiters. score ?L d \<le> 0) \<longrightarrow>
      (\<exists>k<length delimiters. detectDelimiter tx = [delimiters ! k] \<and>
         0 < score ?L (delimiters ! k) \<and>
         (\<forall>j<length delimiters. score ?L (delimiters ! j) \<le> score ?L (delimiters ! k)) \<and>
         (\<forall>j<k. score ?L (delimiters ! j) < score ?L (delimiters ! k))))"
  proof
    assume "b = COMMA \<and> s = 0"
    with le r show ?thesis by simp
  next
    assume "\<exists>k<length delimiters. b = delimiters ! k \<and> s = score ?L (delimiters ! k) \<and> 0 < s \<and>
          (\<forall>j<k. score ?L (delimiters ! j) < s)"
    then obtain k where k: "k < length delimiters" "b = delimiters ! k"
      "s = score ?L (delimiters ! k)" "0 < s" "\<forall>j<k. score ?L (delimiters ! j) < s"
      by blast
    from k(1) have mem: "delimiters ! k \<in> set delimiters" by simp
    with k(3,4) have pos: "\<not> (\<forall>d \<in> set delimiters. score ?L d \<le> 0)"
      by (auto simp: not_le intro: bexI [of _ "delimiters ! k"])
    have "\<forall>j<length delimiters. score ?L (delimiters ! j) \<le> score ?L (delimiters ! k)"
      using le k(3) by simp
    with k r have "\<exists>k<length delimiters. detectDelimiter tx = [delimiters ! k] \<and>
         0 < score ?L (delimiters ! k) \<and>
         (\<forall>j<length delimiters. score ?L (delimiters ! j) \<le> score ?L (delimiters ! k)) \<and>
         (\<forall>j<k. score ?L (delimiters ! j) < score ?L (delimiters ! k))"
      by blast
    with pos show ?thesis by blast
  qed
  with acc show ?thesis by (intro conjI) blast+
qed

text \<open>
  A text without candidates, and the text \<open>x\n,;;\n,;;;;\<close>: the commas are counted
  0, 1, 1 and the semicolons 0, 2, 4, the exact score of both is 6/11, and the two
  computed scores are the doubles 0.5454545454545454 and 0.5454545454545455.
\<close>

theorem detectDelimiter_choice_witness:
  "detectDelimiter (str ''plain text'') = [COMMA] \<and>
   (\<exists>k<length delimiters.
      detectDelimiter (str ''x'' @ [LF] @ str '',;;'' @ [LF] @ str '',;;;;'') = [delimiters ! k] \<and>
      0 < score (take 5 (split_char LF (trim (str ''x'' @ [LF] @ str '',;;'' @ [LF] @ str '',;;;;''))))
            (delimiters ! k)) \<and>
   detectDelimiter (str ''x'' @ [LF] @ str '',;;'' @ [LF] @ str '',;;;;'') = [0x3B] \<and>
   score [str ''x'', str '',;;'', str '',;;;;''] COMMA = 1228254443828317 / 2251799813685248 \<and>
   score [str ''x'', str '',;;'', str '',;;;;''] 0x3B = 4913017775313269 / 9007199254740992 \<and>
   score_spec (map (occurrences 0x3B) [str ''x'', str '',;;'', str '',;;;;'']) = 6 / 11 \<and>
   \<bar>score [str ''x'', str '',;;'', str '',;;;;''] 0x3B -
     score_spec (map (occurrences 0x3B) [str ''x'', str '',;;'', str '',;;;;''])\<bar> \<le>
     score_spec (map (occurrences 0x3B) [str ''x'', str '',;;'', str '',;;;;'']) / 2 ^ 23"
proof -
  let ?t = "str ''x'' @ [LF] @ str '',;;'' @ [LF] @ str '',;;;;''"
  have none: "\<forall>d \<in> set delimiters. score (take 5 (split_char LF (trim (str ''plain text'')))) d \<le> 0"
    by (simp add: dd_eval)
  have c: "score [str ''x'', str '',;;'', str '',;;;;''] COMMA = 1228254443828317 / 2251799813685248"
    by (simp add: dd_eval)
  have s: "score [str ''x'', str '',;;'', str '',;;;;''] 0x3B = 4913017775313269 / 9007199254740992"
    by (simp add: dd_eval)
  have e: "score_spec (map (occurrences 0x3B) [str ''x'', str '',;;'', str '',;;;;'']) = 6 / 11"
    by (simp add: spec_eval)
  have l: "take 5 (split_char LF (trim ?t)) = [str ''x'', str '',;;'', str '',;;;;'']"
    by (simp add: str_simps)
  have some: "\<not> (\<forall>d \<in> set delimiters. score (take 5 (split_char LF (trim ?t))) d \<le> 0)"
    unfolding l by (simp add: c delimiters_def)
  have few: "\<forall>l \<in> set (take 5 (split_char LF (trim ?t))). occurrences 0x3B l \<le> 1024"
    unfolding l by (simp add: occurrences_def str_simps)
  from detectDelimiter_choice [of "str ''plain text''", THEN conjunct1, THEN mp, OF none]
  have 1: "detectDelimiter (str ''plain text'') = [COMMA]" .
  from detectDelimiter_choice [of ?t, THEN conjunct2, THEN conjunct1, THEN mp, OF some]
  have 2: "\<exists>k<length delimiters. detectDelimiter ?t = [delimiters ! k] \<and>
      0 < score (take 5 (split_char LF (trim ?t))) (delimiters ! k)"
    by blast
  have 3: "detectDelimiter ?t = [0x3B]" by (simp add: dd_eval)
  from detectDelimiter_choice [of ?t, THEN conjunct2, THEN conjunct2, THEN spec, of "0x3B",
      THEN mp, OF few]
  have 4: "\<bar>score [str ''x'', str '',;;'', str '',;;;;''] 0x3B -
     score_spec (map (occurrences 0x3B) [str ''x'', str '',;;'', str '',;;;;''])\<bar> \<le>
     score_spec (map (occurrences 0x3B) [str ''x'', str '',;;'', str '',;;;;'']) / 2 ^ 23"
    unfolding l .
  from 1 2 3 c s e 4 show ?thesis by (intro conjI)
qed

text \<open>
  C5, as stated, fails in two ways. Blank lines are not skipped: in the text of a line
  \<open>;\<close>, four blank lines and four lines \<open>,\<close>, the first five lines are \<open>;\<close> and four
  blank ones, and the detector returns the semicolon, the only candidate with a positive
  score, while over the first five non-empty lines the comma has the strictly highest
  score. And the scores are compared as the doubles that the arithmetic returns: in the
  text \<open>x\n,;;\n,;;;;\<close> the comma and the semicolon have the same score 6/11, a tie
  that would keep the comma, and the detector returns the semicolon.
\<close>

theorem detectDelimiter_counterexample:
  "detectDelimiter [0x3B, LF, LF, LF, LF, LF, COMMA, LF, COMMA, LF, COMMA, LF, COMMA] = [0x3B] \<and>
   lines_spec [0x3B, LF, LF, LF, LF, LF, COMMA, LF, COMMA, LF, COMMA, LF, COMMA] =
     [[0x3B], [COMMA], [COMMA], [COMMA], [COMMA]] \<and>
   score_spec (map (occurrences COMMA) [[0x3B], [COMMA], [COMMA], [COMMA], [COMMA]]) = 20 / 29 \<and>
   score_spec (map (occurrences 0x3B) [[0x3B], [COMMA], [COMMA], [COMMA], [COMMA]]) = 5 / 29 \<and>
   score_spec (map (occurrences 0x09) [[0x3B], [COMMA], [COMMA], [COMMA], [COMMA]]) = 0 \<and>
   score_spec (map (occurrences 0x7C) [[0x3B], [COMMA], [COMMA], [COMMA], [COMMA]]) = 0 \<and>
   detectDelimiter (str ''x'' @ [LF] @ str '',;;'' @ [LF] @ str '',;;;;'') = [0x3B] \<and>
   lines_spec (str ''x'' @ [LF] @ str '',;;'' @ [LF] @ str '',;;;;'') =
     [str ''x'', str '',;;'', str '',;;;;''] \<and>
   score_spec (map (occurrences COMMA) [str ''x'', str '',;;'', str '',;;;;'']) = 6 / 11 \<and>
   score_spec (map (occurrences 0x3B) [str ''x'', str '',;;'', str '',;;;;'']) = 6 / 11"
proof -
  have "detectDelimiter [0x3B, LF, LF, LF, LF, LF, COMMA, LF, COMMA, LF, COMMA, LF, COMMA] = [0x3B]"
    by (simp add: dd_eval)
  moreover have "detectDelimiter (str ''x'' @ [LF] @ str '',;;'' @ [LF] @ str '',;;;;'') = [0x3B]"
    by (simp add: dd_eval)
  ultimately show ?thesis by (simp add: spec_eval)
qed

section \<open>Properties of the patterns\<close>

text \<open>
  The matcher decides membership in the language of the pattern; the searches find a
  matching substring at the positions that the anchors allow.
\<close>

lemma nullable_lang: "nullable r \<longleftrightarrow> [] \<in> lang r"
  by (induction r) (auto intro: repeated.none)

lemma repeated_Cons:
  "c # w \<in> repeated A \<longleftrightarrow> (\<exists>u v. w = u @ v \<and> c # u \<in> A \<and> v \<in> repeated A)"
proof
  assume "c # w \<in> repeated A"
  then show "\<exists>u v. w = u @ v \<and> c # u \<in> A \<and> v \<in> repeated A"
  proof (induction "c # w" arbitrary: w rule: repeated.induct)
    case (more u v)
    show ?case
    proof (cases u)
      case Nil
      with more show ?thesis by simp
    next
      case (Cons a u')
      with more.hyps have "w = u' @ v \<and> c # u' \<in> A \<and> v \<in> repeated A" by simp
      then show ?thesis by blast
    qed
  qed
next
  assume "\<exists>u v. w = u @ v \<and> c # u \<in> A \<and> v \<in> repeated A"
  then obtain u v where "w = u @ v" "c # u \<in> A" "v \<in> repeated A" by blast
  then show "c # w \<in> repeated A" using repeated.more [of "c # u" A v] by simp
qed

lemma deriv_lang: "w \<in> lang (deriv c r) \<longleftrightarrow> c # w \<in> lang r"
proof (induction r arbitrary: w)
  case (RSeq r s)
  show ?case
  proof
    assume "w \<in> lang (deriv c (RSeq r s))"
    then consider (left) u v where "w = u @ v" "u \<in> lang (deriv c r)" "v \<in> lang s"
      | (right) "nullable r" "w \<in> lang (deriv c s)"
      by (auto split: if_splits)
    then show "c # w \<in> lang (RSeq r s)"
    proof cases
      case left
      then have "c # u \<in> lang r" using RSeq.IH(1) by simp
      with left show ?thesis by (auto intro: exI [of _ "c # u"])
    next
      case right
      then have "[] \<in> lang r" "c # w \<in> lang s" using RSeq.IH(2) nullable_lang by simp_all
      then show ?thesis by (auto intro: exI [of _ "[]"])
    qed
  next
    assume "c # w \<in> lang (RSeq r s)"
    then obtain u v where uv: "c # w = u @ v" "u \<in> lang r" "v \<in> lang s" by auto
    show "w \<in> lang (deriv c (RSeq r s))"
    proof (cases u)
      case Nil
      with uv have "nullable r" "w \<in> lang (deriv c s)"
        using RSeq.IH(2) nullable_lang by simp_all
      then show ?thesis by simp
    next
      case (Cons a u')
      with uv have "w = u' @ v" "u' \<in> lang (deriv c r)" using RSeq.IH(1) by simp_all
      with uv(3) show ?thesis by auto
    qed
  qed
next
  case (RStar r)
  show ?case
  proof
    assume "w \<in> lang (deriv c (RStar r))"
    then obtain u v where "w = u @ v" "u \<in> lang (deriv c r)" "v \<in> repeated (lang r)" by auto
    then show "c # w \<in> lang (RStar r)" using RStar.IH repeated_Cons [of c w "lang r"] by auto
  next
    assume "c # w \<in> lang (RStar r)"
    then obtain u v where "w = u @ v" "c # u \<in> lang r" "v \<in> repeated (lang r)"
      using repeated_Cons [of c w "lang r"] by auto
    then show "w \<in> lang (deriv c (RStar r))" using RStar.IH by auto
  qed
qed auto

lemma rx_matches_lang: "rx_matches r w \<longleftrightarrow> w \<in> lang r"
  by (induction w arbitrary: r) (simp_all add: nullable_lang deriv_lang)

lemma rx_prefix_lang: "rx_prefix r w \<longleftrightarrow> (\<exists>u v. w = u @ v \<and> u \<in> lang r)"
proof (induction w arbitrary: r)
  case Nil
  then show ?case by (simp add: nullable_lang)
next
  case (Cons c w)
  show ?case
  proof
    assume "rx_prefix r (c # w)"
    then consider "[] \<in> lang r" | u v where "w = u @ v" "c # u \<in> lang r"
      using Cons.IH [of "deriv c r"] by (auto simp: nullable_lang deriv_lang)
    then show "\<exists>u v. c # w = u @ v \<and> u \<in> lang r"
    proof cases
      case 1
      then have "c # w = [] @ (c # w) \<and> [] \<in> lang r" by simp
      then show ?thesis by blast
    next
      case 2
      then have "c # w = (c # u) @ v \<and> c # u \<in> lang r" by simp
      then show ?thesis by blast
    qed
  next
    assume "\<exists>u v. c # w = u @ v \<and> u \<in> lang r"
    then obtain u v where uv: "c # w = u @ v" "u \<in> lang r" by blast
    show "rx_prefix r (c # w)"
    proof (cases u)
      case Nil
      with uv(2) have "nullable r" by (simp add: nullable_lang)
      then show ?thesis by simp
    next
      case (Cons a u')
      with uv have "w = u' @ v" "u' \<in> lang (deriv c r)" by (simp_all add: deriv_lang)
      then have "rx_prefix (deriv c r) w" using Cons.IH [of "deriv c r"] by blast
      then show ?thesis by simp
    qed
  qed
qed

lemma rx_prefix_eol_lang:
  "rx_prefix_eol r s \<longleftrightarrow> (\<exists>v w. s = v @ w \<and> v \<in> lang r \<and> (w = [] \<or> is_lt (hd w)))"
proof (induction s arbitrary: r)
  case Nil
  then show ?case by (simp add: nullable_lang)
next
  case (Cons c s)
  show ?case
  proof
    assume "rx_prefix_eol r (c # s)"
    then consider "[] \<in> lang r" "is_lt c"
      | v w where "s = v @ w" "c # v \<in> lang r" "w = [] \<or> is_lt (hd w)"
      using Cons.IH [of "deriv c r"] by (auto simp: nullable_lang deriv_lang)
    then show "\<exists>v w. c # s = v @ w \<and> v \<in> lang r \<and> (w = [] \<or> is_lt (hd w))"
    proof cases
      case 1
      then have "c # s = [] @ (c # s) \<and> [] \<in> lang r \<and> (c # s = [] \<or> is_lt (hd (c # s)))"
        by simp
      then show ?thesis by blast
    next
      case 2
      then have "c # s = (c # v) @ w \<and> c # v \<in> lang r \<and> (w = [] \<or> is_lt (hd w))"
        by simp
      then show ?thesis by blast
    qed
  next
    assume "\<exists>v w. c # s = v @ w \<and> v \<in> lang r \<and> (w = [] \<or> is_lt (hd w))"
    then obtain v w where vw: "c # s = v @ w" "v \<in> lang r" "w = [] \<or> is_lt (hd w)"
      by blast
    show "rx_prefix_eol r (c # s)"
    proof (cases v)
      case Nil
      with vw have "nullable r" "is_lt c" by (auto simp: nullable_lang)
      then show ?thesis by simp
    next
      case (Cons a v')
      with vw have "s = v' @ w" "v' \<in> lang (deriv c r)" by (simp_all add: deriv_lang)
      with vw(3) have "rx_prefix_eol (deriv c r) s" using Cons.IH [of "deriv c r"] by blast
      then show ?thesis by simp
    qed
  qed
qed

lemma search_bol_iff:
  "search_bol m b s \<longleftrightarrow>
   (b \<and> m s) \<or> (\<exists>u v. s = u @ v \<and> u \<noteq> [] \<and> is_lt (last u) \<and> m v)"
proof (induction s arbitrary: b)
  case Nil
  then show ?case by simp
next
  case (Cons c s)
  show ?case
  proof
    assume "search_bol m b (c # s)"
    then consider "b" "m (c # s)" | "is_lt c" "m s"
      | u v where "s = u @ v" "u \<noteq> []" "is_lt (last u)" "m v"
      using Cons.IH [of "is_lt c"] by auto
    then show "(b \<and> m (c # s)) \<or> (\<exists>u v. c # s = u @ v \<and> u \<noteq> [] \<and> is_lt (last u) \<and> m v)"
    proof cases
      case 1
      then show ?thesis by simp
    next
      case 2
      then have "c # s = [c] @ s \<and> [c] \<noteq> [] \<and> is_lt (last [c]) \<and> m s" by simp
      then show ?thesis by blast
    next
      case 3
      then have "c # s = (c # u) @ v \<and> c # u \<noteq> [] \<and> is_lt (last (c # u)) \<and> m v" by simp
      then show ?thesis by blast
    qed
  next
    assume "(b \<and> m (c # s)) \<or> (\<exists>u v. c # s = u @ v \<and> u \<noteq> [] \<and> is_lt (last u) \<and> m v)"
    then show "search_bol m b (c # s)"
    proof
      assume "b \<and> m (c # s)"
      then show ?thesis by simp
    next
      assume "\<exists>u v. c # s = u @ v \<and> u \<noteq> [] \<and> is_lt (last u) \<and> m v"
      then obtain u v where uv: "c # s = u @ v" "u \<noteq> []" "is_lt (last u)" "m v" by blast
      then obtain u' where u: "u = c # u'" "s = u' @ v" by (cases u) auto
      show ?thesis
      proof (cases u')
        case Nil
        with u uv have "is_lt c" "m s" by simp_all
        then have "search_bol m (is_lt c) s" using Cons.IH [of "is_lt c"] by simp
        then show ?thesis by simp
      next
        case (Cons a u'')
        with u uv have "s = u' @ v \<and> u' \<noteq> [] \<and> is_lt (last u') \<and> m v" by simp
        then have "search_bol m (is_lt c) s" using Cons.IH [of "is_lt c"] by blast
        then show ?thesis by simp
      qed
    qed
  qed
qed

lemma at_line_start:
  "(P s \<or> (\<exists>u t. s = u @ t \<and> u \<noteq> [] \<and> Q u \<and> P t)) \<longleftrightarrow>
   (\<exists>u t. s = u @ t \<and> (u = [] \<or> Q u) \<and> P t)"
proof
  assume "P s \<or> (\<exists>u t. s = u @ t \<and> u \<noteq> [] \<and> Q u \<and> P t)"
  then show "\<exists>u t. s = u @ t \<and> (u = [] \<or> Q u) \<and> P t"
  proof
    assume "P s"
    then have "s = [] @ s \<and> ([] = [] \<or> Q []) \<and> P s" by simp
    then show ?thesis by blast
  next
    assume "\<exists>u t. s = u @ t \<and> u \<noteq> [] \<and> Q u \<and> P t"
    then show ?thesis by blast
  qed
next
  assume "\<exists>u t. s = u @ t \<and> (u = [] \<or> Q u) \<and> P t"
  then obtain u t where ut: "s = u @ t" "u = [] \<or> Q u" "P t" by blast
  show "P s \<or> (\<exists>u t. s = u @ t \<and> u \<noteq> [] \<and> Q u \<and> P t)"
  proof (cases "u = []")
    case True
    with ut show ?thesis by simp
  next
    case False
    with ut show ?thesis by blast
  qed
qed

lemma test_bol_lang:
  "test_bol r s \<longleftrightarrow>
   (\<exists>u v w. s = u @ v @ w \<and> (u = [] \<or> is_lt (last u)) \<and> v \<in> lang r)"
proof -
  have "test_bol r s \<longleftrightarrow>
    rx_prefix r s \<or> (\<exists>u t. s = u @ t \<and> u \<noteq> [] \<and> is_lt (last u) \<and> rx_prefix r t)"
    by (simp add: test_bol_def search_bol_iff)
  also have "\<dots> \<longleftrightarrow> (\<exists>u t. s = u @ t \<and> (u = [] \<or> is_lt (last u)) \<and> rx_prefix r t)"
    by (rule at_line_start)
  also have "\<dots> \<longleftrightarrow> (\<exists>u v w. s = u @ v @ w \<and> (u = [] \<or> is_lt (last u)) \<and> v \<in> lang r)"
    unfolding rx_prefix_lang by blast
  finally show ?thesis .
qed

lemma test_bol_eol_lang:
  "test_bol_eol r s \<longleftrightarrow>
   (\<exists>u v w. s = u @ v @ w \<and> (u = [] \<or> is_lt (last u)) \<and> v \<in> lang r \<and>
      (w = [] \<or> is_lt (hd w)))"
proof -
  have "test_bol_eol r s \<longleftrightarrow>
    rx_prefix_eol r s \<or> (\<exists>u t. s = u @ t \<and> u \<noteq> [] \<and> is_lt (last u) \<and> rx_prefix_eol r t)"
    by (simp add: test_bol_eol_def search_bol_iff)
  also have "\<dots> \<longleftrightarrow> (\<exists>u t. s = u @ t \<and> (u = [] \<or> is_lt (last u)) \<and> rx_prefix_eol r t)"
    by (rule at_line_start)
  also have "\<dots> \<longleftrightarrow> (\<exists>u v w. s = u @ v @ w \<and> (u = [] \<or> is_lt (last u)) \<and> v \<in> lang r \<and>
      (w = [] \<or> is_lt (hd w)))"
    unfolding rx_prefix_eol_lang by blast
  finally show ?thesis .
qed

lemma rx_search_lang: "rx_search r s \<longleftrightarrow> (\<exists>u v w. s = u @ v @ w \<and> v \<in> lang r)"
proof (induction s)
  case Nil
  then show ?case by (simp add: nullable_lang)
next
  case (Cons c s)
  show ?case
  proof
    assume "rx_search r (c # s)"
    then have "rx_prefix r (c # s) \<or> rx_search r s" by simp
    then show "\<exists>u v w. c # s = u @ v @ w \<and> v \<in> lang r"
    proof
      assume "rx_prefix r (c # s)"
      then obtain v w where "c # s = v @ w" "v \<in> lang r"
        unfolding rx_prefix_lang by blast
      then have "c # s = [] @ v @ w \<and> v \<in> lang r" by simp
      then show ?thesis by blast
    next
      assume "rx_search r s"
      then obtain u v w where "s = u @ v @ w" "v \<in> lang r"
        using Cons.IH by blast
      then have "c # s = (c # u) @ v @ w \<and> v \<in> lang r" by simp
      then show ?thesis by blast
    qed
  next
    assume "\<exists>u v w. c # s = u @ v @ w \<and> v \<in> lang r"
    then obtain u v w where uvw: "c # s = u @ v @ w" "v \<in> lang r" by blast
    show "rx_search r (c # s)"
    proof (cases u)
      case Nil
      with uvw have "rx_prefix r (c # s)" unfolding rx_prefix_lang by auto
      then show ?thesis by simp
    next
      case (Cons a u')
      with uvw have "s = u' @ v @ w \<and> v \<in> lang r" by simp
      then have "rx_search r s" using Cons.IH by blast
      then show ?thesis by simp
    qed
  qed
qed

section \<open>Properties of the format classifier\<close>

lemmas rx_eval = isDatabricksFormat_def test_bol_def test_bol_eol_def rx_ch_def rx_one_of_def
  rx_plus_def rx_opt_def rx_ws_def rx_dot_def is_lt_def is_ws_def str_def Let_def

lemmas db_eval = parseDatabricksFormat_def parseSingleAsciiTable_def single_step_def db_step_def
  flush_table_def name_or_def data_line_cells_def is_separator_def tableNameMatch_def
  strip_trailing_commas_def startsWith_def trim_def trimStart_def trimEnd_def

lemmas md_eval = isMarkdownTable_def parseMarkdownTable_def md_block_def splitRow_def findIndex_def
  separatorPattern_def sep_cell_def trim_def trimStart_def trimEnd_def

lemmas fw_eval = isFixedWidthTable_def parseFixedWidthTable_def nonblank_lines_def max_length_def
  at_threshold_def gap_count_step_def cut_step_def padEnd_def isUnderline_def
  trim_def trimStart_def trimEnd_def

lemmas stage_eval = formatFromText_def box_stage_def markdown_stage_def json_stage_def
  fixed_stage_def csv_fallback_def chosen_delimiter_def processData_def load_tables_def
  switchToTable_def totalRows_def isJSONArray_def

subsection \<open>The examples of the specification\<close>

lemma box_two_named_tables:
  "parseDatabricksFormat
     (str ''===='' @ [LF] @ str ''TABLE: x'' @ [LF] @ str ''+-+'' @ [LF] @ str ''|a|'' @ [LF] @
      str ''|1|'' @ [LF] @ str ''TABLE: y'' @ [LF] @ str ''|b|'' @ [LF] @ str ''|2|'' @ [LF] @
      str ''|3|'') =
   [\<lparr>name = str ''x'', headers = [str ''a''], data = [[str ''1'']]\<rparr>,
    \<lparr>name = str ''y'', headers = [str ''b''], data = [[str ''2''], [str ''3'']]\<rparr>]"
  by (simp add: db_eval rx_eval)

lemma markdown_example:
  "parseMarkdownTable (str ''| a | b |'' @ [LF] @ str ''|---|---|'' @ [LF] @ str ''| 1 | 2 |'') =
   [\<lparr>name = str ''Table 1'', headers = [str ''a'', str ''b''], data = [[str ''1'', str ''2'']]\<rparr>]"
  by (simp add: md_eval rx_eval nat_to_string.simps)

lemma fixed_width_example:
  "isFixedWidthTable (str ''Name   Age'' @ [LF] @ str ''Alice  30'' @ [LF] @ str ''Bob    25'') \<and>
   parseFixedWidthTable (str ''Name   Age'' @ [LF] @ str ''Alice  30'' @ [LF] @ str ''Bob    25'') =
   Some \<lparr>name = str ''Table 1'', headers = [str ''Name'', str ''Age''],
     data = [[str ''Alice'', str ''30''], [str ''Bob'', str ''25'']]\<rparr>"
  by (simp add: fw_eval rx_eval)

subsection \<open>The order of the detectors\<close>

lemma tables_switchToTable [simp]: "tables (switchToTable i st) = tables st"
  by (simp add: switchToTable_def Let_def)

lemma tables_load_tables [simp]: "tables (load_tables tbls st) = tbls"
  by (simp add: load_tables_def Let_def)

text \<open>\<open>parseJSONArray\<close> does not throw on a text that \<open>isJSONArray\<close> accepts.\<close>

lemma parseJSONArray_defined: "isJSONArray rt tx \<Longrightarrow> parseJSONArray rt tx \<noteq> None"
  by (auto simp: isJSONArray_def parseJSONArray_def Let_def split: option.splits if_splits)

lemma box_stage_eq:
  "box_stage tx st =
     (if isDatabricksFormat tx \<and> parseDatabricksFormat tx \<noteq> []
      then Some (load_tables (parseDatabricksFormat tx) st,
                 Toast (str ''Loaded '' @ nat_to_string (length (parseDatabricksFormat tx)) @
                        str '' table(s), '' @ nat_to_string (totalRows (parseDatabricksFormat tx)) @
                        str '' total rows''))
      else None)"
  by (simp add: box_stage_def Let_def)

lemma markdown_stage_eq:
  "markdown_stage tx st =
     (if isMarkdownTable tx \<and> parseMarkdownTable tx \<noteq> []
      then Some (load_tables (parseMarkdownTable tx) st,
                 Toast (str ''Loaded '' @ nat_to_string (length (parseMarkdownTable tx)) @
                        str '' Markdown table(s), '' @
                        nat_to_string (totalRows (parseMarkdownTable tx)) @ str '' total rows''))
      else None)"
  by (simp add: markdown_stage_def Let_def)

lemma formatFromText_stages:
  "trim (pasteInput inp) \<noteq> [] \<Longrightarrow>
   formatFromText rt inp st =
    (case box_stage (trim (pasteInput inp)) st of Some r \<Rightarrow> r | None \<Rightarrow>
     case markdown_stage (trim (pasteInput inp)) st of Some r \<Rightarrow> r | None \<Rightarrow>
     case json_stage rt (trim (pasteInput inp)) st of Some r \<Rightarrow> r | None \<Rightarrow>
     case fixed_stage (trim (pasteInput inp)) st of Some r \<Rightarrow> r
     | None \<Rightarrow> csv_fallback inp (trim (pasteInput inp)) st)"
  by (simp add: formatFromText_def Let_def)

text \<open>
  C2, as stated, fails: a detector that matches does not own the result when its
  parser returns no table. The text \<open>+--+\na|b\n--|--\n1|2\<close> matches the box-table
  test (a border line) and the Markdown test; the box parser finds no data line and
  returns no table, and the text is loaded as a Markdown table.
\<close>

theorem formatFromText_precedence_counterexample:
  "isDatabricksFormat (str ''+--+'' @ [LF] @ str ''a|b'' @ [LF] @ str ''--|--'' @ [LF] @ str ''1|2'') \<and>
   isMarkdownTable (str ''+--+'' @ [LF] @ str ''a|b'' @ [LF] @ str ''--|--'' @ [LF] @ str ''1|2'') \<and>
   parseDatabricksFormat (str ''+--+'' @ [LF] @ str ''a|b'' @ [LF] @ str ''--|--'' @ [LF] @ str ''1|2'')
     = [] \<and>
   (\<forall>rt. formatFromText rt
       \<lparr>pasteInput = str ''+--+'' @ [LF] @ str ''a|b'' @ [LF] @ str ''--|--'' @ [LF] @ str ''1|2'',
        delimiterSelect = str ''auto'', firstRowHeader = True\<rparr>
       \<lparr>data = [], headers = [], sortColumn = - 1, sortDirection = Asc, filteredData = [],
        tables = [], currentTableIndex = 0\<rparr> =
     (\<lparr>data = [[str ''1'', str ''2'']], headers = [str ''a'', str ''b''], sortColumn = - 1,
       sortDirection = Asc, filteredData = [[str ''1'', str ''2'']],
       tables = [\<lparr>name = str ''Table 1'', headers = [str ''a'', str ''b''],
                  data = [[str ''1'', str ''2'']]\<rparr>],
       currentTableIndex = 0\<rparr>,
      Toast (str ''Loaded 1 Markdown table(s), 1 total rows'')))"
proof -
  define T where "T = str ''+--+'' @ [LF] @ str ''a|b'' @ [LF] @ str ''--|--'' @ [LF] @ str ''1|2''"
  have tr: "trim T = T" and ne: "T \<noteq> []"
    by (simp_all add: T_def str_simps)
  have box: "isDatabricksFormat T" "parseDatabricksFormat T = []"
    by (simp_all add: T_def db_eval rx_eval)
  have md: "isMarkdownTable T"
    "parseMarkdownTable T =
       [\<lparr>name = str ''Table 1'', headers = [str ''a'', str ''b''], data = [[str ''1'', str ''2'']]\<rparr>]"
    by (simp_all add: T_def md_eval rx_eval nat_to_string.simps)
  have "\<forall>rt. formatFromText rt
       \<lparr>pasteInput = T, delimiterSelect = str ''auto'', firstRowHeader = True\<rparr>
       \<lparr>data = [], headers = [], sortColumn = - 1, sortDirection = Asc, filteredData = [],
        tables = [], currentTableIndex = 0\<rparr> =
     (\<lparr>data = [[str ''1'', str ''2'']], headers = [str ''a'', str ''b''], sortColumn = - 1,
       sortDirection = Asc, filteredData = [[str ''1'', str ''2'']],
       tables = [\<lparr>name = str ''Table 1'', headers = [str ''a'', str ''b''],
                  data = [[str ''1'', str ''2'']]\<rparr>],
       currentTableIndex = 0\<rparr>,
      Toast (str ''Loaded 1 Markdown table(s), 1 total rows''))"
    by (simp add: formatFromText_stages tr ne box_stage_eq markdown_stage_eq box md
        load_tables_def switchToTable_def totalRows_def nat_to_string.simps str_def)
  with box md(1) show ?thesis unfolding T_def by (intro conjI)
qed

text \<open>
  C2, amended. For an input that is not blank, the blocks are tried in the order box
  table, Markdown, JSON array, fixed width; a block owns the table set when its detector
  matches and its parser returns at least one table, and otherwise the next block is
  tried (a JSON array that is detected always gives its table); when no block owns the
  input, the text is parsed as delimited text and the table set is empty. In
  particular, an input that matches the box-table and the Markdown test and for which
  the box parser returns a table is loaded as a box table.
\<close>

theorem formatFromText_dispatch:
  assumes "tx = trim (pasteInput inp)" and "tx \<noteq> []"
  shows
    "(isDatabricksFormat tx \<and> parseDatabricksFormat tx \<noteq> [] \<longrightarrow>
        tables (fst (formatFromText rt inp st)) = parseDatabricksFormat tx) \<and>
     (\<not> (isDatabricksFormat tx \<and> parseDatabricksFormat tx \<noteq> []) \<and>
      isMarkdownTable tx \<and> parseMarkdownTable tx \<noteq> [] \<longrightarrow>
        tables (fst (formatFromText rt inp st)) = parseMarkdownTable tx) \<and>
     (\<not> (isDatabricksFormat tx \<and> parseDatabricksFormat tx \<noteq> []) \<and>
      \<not> (isMarkdownTable tx \<and> parseMarkdownTable tx \<noteq> []) \<and>
      isJSONArray rt tx \<longrightarrow>
        (\<exists>t. parseJSONArray rt tx = Some t \<and> tables (fst (formatFromText rt inp st)) = [t])) \<and>
     (\<not> (isDatabricksFormat tx \<and> parseDatabricksFormat tx \<noteq> []) \<and>
      \<not> (isMarkdownTable tx \<and> parseMarkdownTable tx \<noteq> []) \<and>
      \<not> isJSONArray rt tx \<and> isFixedWidthTable tx \<and> parseFixedWidthTable tx \<noteq> None \<longrightarrow>
        (\<exists>t. parseFixedWidthTable tx = Some t \<and> tables (fst (formatFromText rt inp st)) = [t])) \<and>
     (\<not> (isDatabricksFormat tx \<and> parseDatabricksFormat tx \<noteq> []) \<and>
      \<not> (isMarkdownTable tx \<and> parseMarkdownTable tx \<noteq> []) \<and>
      \<not> isJSONArray rt tx \<and> \<not> (isFixedWidthTable tx \<and> parseFixedWidthTable tx \<noteq> None) \<longrightarrow>
        formatFromText rt inp st =
          processData (firstRowHeader inp) (parseCSV tx (chosen_delimiter inp tx))
            (st\<lparr>tables := []\<rparr>))"
proof -
  have f: "formatFromText rt inp st =
    (case box_stage tx st of Some r \<Rightarrow> r | None \<Rightarrow>
     case markdown_stage tx st of Some r \<Rightarrow> r | None \<Rightarrow>
     case json_stage rt tx st of Some r \<Rightarrow> r | None \<Rightarrow>
     case fixed_stage tx st of Some r \<Rightarrow> r | None \<Rightarrow> csv_fallback inp tx st)"
    using assms(2) unfolding assms(1) by (rule formatFromText_stages)
  show ?thesis
  proof (intro conjI impI)
    assume "isDatabricksFormat tx \<and> parseDatabricksFormat tx \<noteq> []"
    then show "tables (fst (formatFromText rt inp st)) = parseDatabricksFormat tx"
      by (simp add: f box_stage_eq)
  next
    assume "\<not> (isDatabricksFormat tx \<and> parseDatabricksFormat tx \<noteq> []) \<and>
      isMarkdownTable tx \<and> parseMarkdownTable tx \<noteq> []"
    then show "tables (fst (formatFromText rt inp st)) = parseMarkdownTable tx"
      by (auto simp: f box_stage_eq markdown_stage_eq)
  next
    assume a: "\<not> (isDatabricksFormat tx \<and> parseDatabricksFormat tx \<noteq> []) \<and>
      \<not> (isMarkdownTable tx \<and> parseMarkdownTable tx \<noteq> []) \<and> isJSONArray rt tx"
    then obtain t where t: "parseJSONArray rt tx = Some t"
      using parseJSONArray_defined [of rt tx] by auto
    with a have "tables (fst (formatFromText rt inp st)) = [t]"
      by (auto simp: f box_stage_eq markdown_stage_eq json_stage_def)
    with t show "\<exists>t. parseJSONArray rt tx = Some t \<and> tables (fst (formatFromText rt inp st)) = [t]"
      by blast
  next
    assume a: "\<not> (isDatabricksFormat tx \<and> parseDatabricksFormat tx \<noteq> []) \<and>
      \<not> (isMarkdownTable tx \<and> parseMarkdownTable tx \<noteq> []) \<and>
      \<not> isJSONArray rt tx \<and> isFixedWidthTable tx \<and> parseFixedWidthTable tx \<noteq> None"
    then obtain t where t: "parseFixedWidthTable tx = Some t" by auto
    with a have "tables (fst (formatFromText rt inp st)) = [t]"
      by (auto simp: f box_stage_eq markdown_stage_eq json_stage_def fixed_stage_def)
    with t show "\<exists>t. parseFixedWidthTable tx = Some t \<and> tables (fst (formatFromText rt inp st)) = [t]"
      by blast
  next
    assume a: "\<not> (isDatabricksFormat tx \<and> parseDatabricksFormat tx \<noteq> []) \<and>
      \<not> (isMarkdownTable tx \<and> parseMarkdownTable tx \<noteq> []) \<and>
      \<not> isJSONArray rt tx \<and> \<not> (isFixedWidthTable tx \<and> parseFixedWidthTable tx \<noteq> None)"
    then have "fixed_stage tx st = None"
      by (auto simp: fixed_stage_def split: option.splits)
    with a show "formatFromText rt inp st =
          processData (firstRowHeader inp) (parseCSV tx (chosen_delimiter inp tx))
            (st\<lparr>tables := []\<rparr>)"
      by (auto simp: f box_stage_eq markdown_stage_eq json_stage_def csv_fallback_def Let_def)
  qed
qed

text \<open>
  The text \<open>+-+\n|a|\n|--|--|\n|1|\<close> matches both tests, the box parser returns a
  table, and the table set is that table.
\<close>

theorem formatFromText_dispatch_witness:
  "isDatabricksFormat (str ''+-+'' @ [LF] @ str ''|a|'' @ [LF] @ str ''|--|--|'' @ [LF] @ str ''|1|'') \<and>
   isMarkdownTable (str ''+-+'' @ [LF] @ str ''|a|'' @ [LF] @ str ''|--|--|'' @ [LF] @ str ''|1|'') \<and>
   (\<forall>rt. tables (fst (formatFromText rt
       \<lparr>pasteInput = str ''+-+'' @ [LF] @ str ''|a|'' @ [LF] @ str ''|--|--|'' @ [LF] @ str ''|1|'',
        delimiterSelect = str ''auto'', firstRowHeader = True\<rparr>
       \<lparr>data = [], headers = [], sortColumn = - 1, sortDirection = Asc, filteredData = [],
        tables = [], currentTableIndex = 0\<rparr>)) =
     [\<lparr>name = str ''Table 1'', headers = [str ''a''],
       data = [[str ''--'', str ''--''], [str ''1'']]\<rparr>])"
proof -
  let ?T = "str ''+-+'' @ [LF] @ str ''|a|'' @ [LF] @ str ''|--|--|'' @ [LF] @ str ''|1|''"
  let ?inp = "\<lparr>pasteInput = ?T, delimiterSelect = str ''auto'', firstRowHeader = True\<rparr>"
  have tr: "?T = trim (pasteInput ?inp)" and ne: "?T \<noteq> []"
    by (simp_all add: str_simps)
  have box: "isDatabricksFormat ?T"
    "parseDatabricksFormat ?T =
       [\<lparr>name = str ''Table 1'', headers = [str ''a''],
         data = [[str ''--'', str ''--''], [str ''1'']]\<rparr>]"
    by (simp_all add: db_eval rx_eval nat_to_string.simps)
  have md: "isMarkdownTable ?T"
    by (simp add: md_eval rx_eval)
  from box have h: "isDatabricksFormat ?T \<and> parseDatabricksFormat ?T \<noteq> []" by simp
  have "\<forall>rt. tables (fst (formatFromText rt ?inp
       \<lparr>data = [], headers = [], sortColumn = - 1, sortDirection = Asc, filteredData = [],
        tables = [], currentTableIndex = 0\<rparr>)) =
     [\<lparr>name = str ''Table 1'', headers = [str ''a''],
       data = [[str ''--'', str ''--''], [str ''1'']]\<rparr>]"
  proof
    fix rt
    show "tables (fst (formatFromText rt ?inp
       \<lparr>data = [], headers = [], sortColumn = - 1, sortDirection = Asc, filteredData = [],
        tables = [], currentTableIndex = 0\<rparr>)) =
     [\<lparr>name = str ''Table 1'', headers = [str ''a''],
       data = [[str ''--'', str ''--''], [str ''1'']]\<rparr>]"
      using formatFromText_dispatch [OF tr ne, THEN conjunct1, THEN mp, OF h]
      unfolding box(2) .
  qed
  with box(1) md show ?thesis by (intro conjI)
qed

subsection \<open>Failing actions\<close>

text \<open>Every block that returns, and a non-empty delimited parse, notify a load.\<close>

lemma stage_not_failed:
  "box_stage tx st = Some r \<Longrightarrow> \<not> failed (snd r)"
  "markdown_stage tx st = Some r \<Longrightarrow> \<not> failed (snd r)"
  "json_stage rt tx st = Some r \<Longrightarrow> \<not> failed (snd r)"
  "fixed_stage tx st = Some r \<Longrightarrow> \<not> failed (snd r)"
  by (auto simp: box_stage_def markdown_stage_def json_stage_def fixed_stage_def Let_def failed_def
      str_def split: if_splits option.splits)

lemma processData_failed:
  "failed (snd (processData h rws st)) \<Longrightarrow>
   processData h rws st = (st, Toast (str ''No data found''))"
  by (auto simp: processData_def Let_def failed_def str_def split: if_splits)

lemma failed_result:
  assumes "failed (snd (formatFromText rt inp st))"
  shows "formatFromText rt inp st = (st, Toast (str ''Please enter some data first'')) \<or>
         formatFromText rt inp st = (st\<lparr>tables := []\<rparr>, Toast (str ''No data found''))"
proof (cases "trim (pasteInput inp) = []")
  case True
  then show ?thesis by (simp add: formatFromText_def Let_def)
next
  case False
  note f = formatFromText_stages [OF False, of rt st]
  let ?tx = "trim (pasteInput inp)"
  from assms stage_not_failed(1) [of ?tx st] have b: "box_stage ?tx st = None"
    unfolding f by (cases "box_stage ?tx st") auto
  from assms stage_not_failed(2) [of ?tx st] b have m: "markdown_stage ?tx st = None"
    unfolding f by (cases "markdown_stage ?tx st") auto
  from assms stage_not_failed(3) [of rt ?tx st] b m have j: "json_stage rt ?tx st = None"
    unfolding f by (cases "json_stage rt ?tx st") auto
  from assms stage_not_failed(4) [of ?tx st] b m j have x: "fixed_stage ?tx st = None"
    unfolding f by (cases "fixed_stage ?tx st") auto
  from b m j x have r: "formatFromText rt inp st = csv_fallback inp ?tx st"
    unfolding f by simp
  with assms have "failed (snd (processData (firstRowHeader inp)
      (parseCSV ?tx (chosen_delimiter inp ?tx)) (st\<lparr>tables := []\<rparr>)))"
    by (simp add: csv_fallback_def Let_def)
  from processData_failed [OF this] r show ?thesis
    by (simp add: csv_fallback_def Let_def)
qed

text \<open>
  The two failing paths. On blank input nothing is assigned. When no block owns the
  input and the delimited parse returns no row, the notification is \<open>No data found\<close>;
  the assignment \<open>this.tables = []\<close> of the fallback has been executed by then.
  Whenever the notification is one of the two, the headers, the data, the filtered
  data, the sort column, the sort direction and the table index are those of the prior
  state.
\<close>

lemma formatFromText_failure_paths:
  assumes "tx = trim (pasteInput inp)"
  shows
    "(tx = [] \<longrightarrow>
        formatFromText rt inp st = (st, Toast (str ''Please enter some data first''))) \<and>
     (tx \<noteq> [] \<and> \<not> (isDatabricksFormat tx \<and> parseDatabricksFormat tx \<noteq> []) \<and>
      \<not> (isMarkdownTable tx \<and> parseMarkdownTable tx \<noteq> []) \<and> \<not> isJSONArray rt tx \<and>
      \<not> (isFixedWidthTable tx \<and> parseFixedWidthTable tx \<noteq> None) \<and>
      parseCSV tx (chosen_delimiter inp tx) = [] \<longrightarrow>
        formatFromText rt inp st = (st\<lparr>tables := []\<rparr>, Toast (str ''No data found''))) \<and>
     (failed (snd (formatFromText rt inp st)) \<longrightarrow>
        state.headers (fst (formatFromText rt inp st)) = state.headers st \<and>
        state.data (fst (formatFromText rt inp st)) = state.data st \<and>
        filteredData (fst (formatFromText rt inp st)) = filteredData st \<and>
        sortColumn (fst (formatFromText rt inp st)) = sortColumn st \<and>
        sortDirection (fst (formatFromText rt inp st)) = sortDirection st \<and>
        currentTableIndex (fst (formatFromText rt inp st)) = currentTableIndex st \<and>
        (fst (formatFromText rt inp st) = st \<or>
         fst (formatFromText rt inp st) = st\<lparr>tables := []\<rparr>))"
proof (intro conjI impI)
  assume "tx = []"
  with assms show "formatFromText rt inp st = (st, Toast (str ''Please enter some data first''))"
    by (simp add: formatFromText_def Let_def)
next
  assume a: "tx \<noteq> [] \<and> \<not> (isDatabricksFormat tx \<and> parseDatabricksFormat tx \<noteq> []) \<and>
      \<not> (isMarkdownTable tx \<and> parseMarkdownTable tx \<noteq> []) \<and> \<not> isJSONArray rt tx \<and>
      \<not> (isFixedWidthTable tx \<and> parseFixedWidthTable tx \<noteq> None) \<and>
      parseCSV tx (chosen_delimiter inp tx) = []"
  then have ne: "trim (pasteInput inp) \<noteq> []" using assms by simp
  from a have "fixed_stage tx st = None"
    by (auto simp: fixed_stage_def split: option.splits)
  with a show "formatFromText rt inp st = (st\<lparr>tables := []\<rparr>, Toast (str ''No data found''))"
    unfolding formatFromText_stages [OF ne] assms [symmetric]
    by (auto simp: box_stage_eq markdown_stage_eq json_stage_def csv_fallback_def processData_def
        Let_def)
next
  assume "failed (snd (formatFromText rt inp st))"
  from failed_result [OF this]
  show "state.headers (fst (formatFromText rt inp st)) = state.headers st"
    "state.data (fst (formatFromText rt inp st)) = state.data st"
    "filteredData (fst (formatFromText rt inp st)) = filteredData st"
    "sortColumn (fst (formatFromText rt inp st)) = sortColumn st"
    "sortDirection (fst (formatFromText rt inp st)) = sortDirection st"
    "currentTableIndex (fst (formatFromText rt inp st)) = currentTableIndex st"
    "fst (formatFromText rt inp st) = st \<or> fst (formatFromText rt inp st) = st\<lparr>tables := []\<rparr>"
    by auto
qed

subsection \<open>A failing action after two tables were loaded\<close>

text \<open>
  Loading a box text with the tables \<open>x\<close> and \<open>y\<close> into the state of the constructor:
  the view is All Tables.
\<close>

lemma two_tables_loaded:
  "formatFromText rt
      \<lparr>pasteInput = str ''===='' @ [LF] @ str ''TABLE: x'' @ [LF] @ str ''+-+'' @ [LF] @
         str ''|a|'' @ [LF] @ str ''|1|'' @ [LF] @ str ''TABLE: y'' @ [LF] @ str ''|b|'' @ [LF] @
         str ''|2|'' @ [LF] @ str ''|3|'',
       delimiterSelect = str ''auto'', firstRowHeader = True\<rparr> constructor =
   (\<lparr>data = [[str ''x'', str ''1'', []], [str ''y'', [], str ''2''], [str ''y'', [], str ''3'']],
     headers = [str ''Table'', str ''a'', str ''b''], sortColumn = - 1, sortDirection = Asc,
     filteredData = [[str ''x'', str ''1'', []], [str ''y'', [], str ''2''], [str ''y'', [], str ''3'']],
     tables = [\<lparr>name = str ''x'', headers = [str ''a''], data = [[str ''1'']]\<rparr>,
               \<lparr>name = str ''y'', headers = [str ''b''], data = [[str ''2''], [str ''3'']]\<rparr>],
     currentTableIndex = - 1\<rparr>,
    Toast (str ''Loaded 2 table(s), 3 total rows''))"
proof -
  define T where "T = str ''===='' @ [LF] @ str ''TABLE: x'' @ [LF] @ str ''+-+'' @ [LF] @
         str ''|a|'' @ [LF] @ str ''|1|'' @ [LF] @ str ''TABLE: y'' @ [LF] @ str ''|b|'' @ [LF] @
         str ''|2|'' @ [LF] @ str ''|3|''"
  have tr: "trim T = T" by (simp add: T_def str_simps)
  have ne: "T \<noteq> []" by (simp add: T_def str_simps)
  have det: "isDatabricksFormat T" by (simp add: T_def rx_eval)
  have p: "parseDatabricksFormat T =
     [\<lparr>name = str ''x'', headers = [str ''a''], data = [[str ''1'']]\<rparr>,
      \<lparr>name = str ''y'', headers = [str ''b''], data = [[str ''2''], [str ''3'']]\<rparr>]"
    unfolding T_def by (rule box_two_named_tables)
  have "formatFromText rt \<lparr>pasteInput = T, delimiterSelect = str ''auto'', firstRowHeader = True\<rparr>
      constructor =
    (load_tables (parseDatabricksFormat T) constructor,
     Toast (str ''Loaded '' @ nat_to_string (length (parseDatabricksFormat T)) @
            str '' table(s), '' @ nat_to_string (totalRows (parseDatabricksFormat T)) @
            str '' total rows''))"
    using det p ne by (simp add: formatFromText_def tr box_stage_eq Let_def)
  also have "\<dots> = (\<lparr>data = [[str ''x'', str ''1'', []], [str ''y'', [], str ''2''], [str ''y'', [], str ''3'']],
     headers = [str ''Table'', str ''a'', str ''b''], sortColumn = - 1, sortDirection = Asc,
     filteredData = [[str ''x'', str ''1'', []], [str ''y'', [], str ''2''], [str ''y'', [], str ''3'']],
     tables = [\<lparr>name = str ''x'', headers = [str ''a''], data = [[str ''1'']]\<rparr>,
               \<lparr>name = str ''y'', headers = [str ''b''], data = [[str ''2''], [str ''3'']]\<rparr>],
     currentTableIndex = - 1\<rparr>,
    Toast (str ''Loaded 2 table(s), 3 total rows''))"
    unfolding p
    by (simp add: load_tables_def switchToTable_def totalRows_def constructor_def pad_eval
        nat_to_string.simps)
  finally show ?thesis unfolding T_def .
qed

lemma no_data_after_two_tables:
  "formatFromText rt \<lparr>pasteInput = [COMMA], delimiterSelect = str ''auto'', firstRowHeader = True\<rparr>
     \<lparr>data = [[str ''x'', str ''1'', []], [str ''y'', [], str ''2''], [str ''y'', [], str ''3'']],
     headers = [str ''Table'', str ''a'', str ''b''], sortColumn = - 1, sortDirection = Asc,
     filteredData = [[str ''x'', str ''1'', []], [str ''y'', [], str ''2''], [str ''y'', [], str ''3'']],
     tables = [\<lparr>name = str ''x'', headers = [str ''a''], data = [[str ''1'']]\<rparr>,
               \<lparr>name = str ''y'', headers = [str ''b''], data = [[str ''2''], [str ''3'']]\<rparr>],
     currentTableIndex = - 1\<rparr> =
   (\<lparr>data = [[str ''x'', str ''1'', []], [str ''y'', [], str ''2''], [str ''y'', [], str ''3'']],
     headers = [str ''Table'', str ''a'', str ''b''], sortColumn = - 1, sortDirection = Asc,
     filteredData = [[str ''x'', str ''1'', []], [str ''y'', [], str ''2''], [str ''y'', [], str ''3'']],
     tables = [], currentTableIndex = - 1\<rparr>, Toast (str ''No data found''))"
  by (simp add: stage_eval db_eval md_eval fw_eval rx_eval dd_eval parseCSV_csv_machine
      push_row_def)

lemma selector_two_tables:
  "updateTableSelector \<lparr>data = d, headers = h, sortColumn = c, sortDirection = dr,
     filteredData = f,
     tables = [\<lparr>name = str ''x'', headers = [str ''a''], data = [[str ''1'']]\<rparr>,
               \<lparr>name = str ''y'', headers = [str ''b''], data = [[str ''2''], [str ''3'']]\<rparr>],
     currentTableIndex = i\<rparr> =
   Some [(- 1, str ''All Tables (3 rows)''), (0, str ''x (1 rows)''), (1, str ''y (2 rows)'')]"
  by (simp add: updateTableSelector_def nat_to_string.simps str_def upt_rec)

text \<open>
  C9. The document state is left as it was, and the notification is not the only
  effect. After the box text with the tables \<open>x\<close> and \<open>y\<close> was loaded, the selector shows
  three options. The input \<open>,\<close> is then a row of two empty cells, which the parser
  drops: the notification is \<open>No data found\<close>, and the headers, the data, the filtered
  data and the sort are those of before, but the table set is empty and the selector
  is hidden. The fallback assigns \<open>this.tables = []\<close> and calls \<open>updateTableSelector\<close>
  before \<open>processData\<close> looks at the number of rows; the return on blank input, the
  four detector blocks and the zero-row path of \<open>processFile\<close> leave the table set of a
  failing action alone.
\<close>

theorem formatFromText_failure_clears_tables:
  "\<forall>rt.
     (let loaded = fst (formatFromText rt
            \<lparr>pasteInput = str ''===='' @ [LF] @ str ''TABLE: x'' @ [LF] @ str ''+-+'' @ [LF] @
               str ''|a|'' @ [LF] @ str ''|1|'' @ [LF] @ str ''TABLE: y'' @ [LF] @ str ''|b|'' @
               [LF] @ str ''|2|'' @ [LF] @ str ''|3|'',
             delimiterSelect = str ''auto'', firstRowHeader = True\<rparr> constructor);
          result = formatFromText rt
            \<lparr>pasteInput = [COMMA], delimiterSelect = str ''auto'', firstRowHeader = True\<rparr> loaded
      in length (tables loaded) = 2 \<and> currentTableIndex loaded = - 1 \<and>
         updateTableSelector loaded =
           Some [(- 1, str ''All Tables (3 rows)''), (0, str ''x (1 rows)''),
                 (1, str ''y (2 rows)'')] \<and>
         snd result = Toast (str ''No data found'') \<and>
         state.headers (fst result) = state.headers loaded \<and>
         state.data (fst result) = state.data loaded \<and>
         filteredData (fst result) = filteredData loaded \<and>
         sortColumn (fst result) = sortColumn loaded \<and>
         sortDirection (fst result) = sortDirection loaded \<and>
         tables (fst result) = [] \<and>
         updateTableSelector (fst result) = None)"
  unfolding Let_def two_tables_loaded fst_conv no_data_after_two_tables snd_conv selector_two_tables
  by (simp add: updateTableSelector_def)

end
